theory Spec2Isabelle
  imports Main "HOL-Library.Word"
begin

unbundle bit_operations_syntax

section \<open>Common types\<close>

text \<open>
  The containers are written in C++14 for a 64-bit platform: \<open>size_t\<close> and \<open>intptr_t\<close>
  are 64-bit machine words, \<open>int\<close> is a 32-bit machine word. Node addresses are natural
  numbers, a null pointer is \<open>None\<close>.

  Every operation is modelled as run by one thread with no other thread running:
  an atomic load, store, exchange or compare-exchange acts on the state directly, a
  compare-exchange succeeds exactly when the compared values are equal (the spurious
  failure that \<open>compare_exchange_weak\<close> allows is not modelled), and memory orderings play
  no role. An operation returns an \<open>option\<close>: \<open>None\<close> stands for a call that does not
  return normally, because a loop of the source never ends or because the source has
  undefined behaviour there (a read through a dangling or out-of-range pointer).

  Nodes live in a heap, a map from addresses to nodes, that each container's state
  carries together with an allocation counter (\<open>lq_brk\<close>, \<open>rc_brk\<close>, \<open>hp_brk\<close>; fields
  of the model, not of the classes): \<open>new\<close> takes the counter's value and increments
  it, so a new node never has the address of an earlier one, and \<open>delete\<close> removes the
  node from the map.

  The C++ member names end in an underscore (\<open>buffer_\<close>, \<open>count_\<close>); the record fields
  drop it.
\<close>

type_synonym size_t = "64 word"
type_synonym addr = nat

datatype error = AssertionFailed | RuntimeError string


section \<open>mpmc_bounded_queue\<close>

record 'a cell_t =
  sequence :: size_t
  data :: "'a option"

record 'a mpmc_bounded_queue =
  buffer :: "'a cell_t list"
  buffer_mask :: size_t
  enqueue_pos :: size_t
  dequeue_pos :: size_t

text \<open>
  \<open>new cell_t[bufsize]\<close>: the cells are default-initialised; \<open>data = None\<close> is a payload
  that was never written, and a \<open>pop\<close> that reads such a payload has no defined result.
  The sequence number of a new cell is never read before \<open>reinit\<close> stores into it.
\<close>

definition new_cells :: "size_t \<Rightarrow> 'a cell_t list" where
  "new_cells bufsize = replicate (unat bufsize) \<lparr>sequence = 0, data = None\<rparr>"

text \<open>The loop \<open>for (size_t i = 0; i != bufsize; ++i) buffer_[i].sequence_.store(i)\<close>.\<close>

function reinit_fill :: "size_t \<Rightarrow> size_t \<Rightarrow> 'a cell_t list \<Rightarrow> 'a cell_t list option" where
  "reinit_fill i bufsize buf =
     (if i = bufsize then Some buf
      else if length buf \<le> unat i then None
      else reinit_fill (i + 1) bufsize (buf[unat i := (buf ! unat i)\<lparr>sequence := i\<rparr>]))"
  by pat_completeness auto
termination
proof (relation "measure (\<lambda>(i, bufsize, buf). unat (bufsize - i))")
  show "wf (measure (\<lambda>(i, bufsize, buf). unat (bufsize - i)))" by simp
next
  fix i bufsize :: size_t and buf :: "'a cell_t list"
  assume "i \<noteq> bufsize"
  then have ne: "bufsize - i \<noteq> 0" by simp
  have eq: "bufsize - (i + 1) = bufsize - i - 1" by simp
  have "unat (bufsize - (i + 1)) < unat (bufsize - i)"
    unfolding eq using ne by (rule measure_unat)
  then show "((i + 1, bufsize, buf[unat i := (buf ! unat i)\<lparr>sequence := i\<rparr>]),
      (i, bufsize, buf)) \<in> measure (\<lambda>(i, bufsize, buf). unat (bufsize - i))"
    by simp
qed

declare reinit_fill.simps [simp del]

definition mpmc_reinit :: "'a mpmc_bounded_queue \<Rightarrow> 'a mpmc_bounded_queue option" where
  "mpmc_reinit q =
     (case reinit_fill 0 (buffer_mask q + 1) (buffer q) of
        None \<Rightarrow> None
      | Some buf \<Rightarrow> Some (q\<lparr>buffer := buf, enqueue_pos := 0, dequeue_pos := 0\<rparr>))"

text \<open>
  The constructor. The member initialisers run first (the buffer is allocated, the mask
  computed), then the body asserts \<open>bufsize >= 2 && (bufsize & (bufsize - 1)) == 0\<close> and
  calls \<open>reinit\<close>. The first component of the result is the list of the sizes of the
  cell arrays obtained from \<open>new[]\<close> so far, so that the allocation is visible when the
  assertion fails. The assertion is active: the Makefile does not define \<open>NDEBUG\<close>.
\<close>

definition mpmc_bounded_queue_ctor ::
  "size_t \<Rightarrow> size_t list \<Rightarrow> size_t list \<times> (error + 'a mpmc_bounded_queue) option" where
  "mpmc_bounded_queue_ctor bufsize allocs =
     (let q = \<lparr>buffer = new_cells bufsize, buffer_mask = bufsize - 1,
               enqueue_pos = 0, dequeue_pos = 0\<rparr>;
          allocs' = allocs @ [bufsize]
      in if \<not> (2 \<le> bufsize \<and> bufsize AND (bufsize - 1) = 0)
         then (allocs', Some (Inl AssertionFailed))
         else (allocs', map_option Inr (mpmc_reinit q)))"

text \<open>
  The CAS loop of \<open>push\<close>. \<open>diff\<close> is \<open>intptr_t(seq) - intptr_t(pos)\<close>, computed as the
  64-bit machine subtraction and read as a signed number. The result is \<open>None\<close> in
  the first component when the loop leaves through \<open>return false\<close>, and the claimed
  position otherwise. With \<open>diff > 0\<close> the loop goes round with nothing changed.
\<close>

partial_function (option) mpmc_push_loop ::
  "'a mpmc_bounded_queue \<Rightarrow> (size_t option \<times> 'a mpmc_bounded_queue) option" where
  "mpmc_push_loop q =
    (let pos = enqueue_pos q; idx = unat (pos AND buffer_mask q) in
     if length (buffer q) \<le> idx then None
     else let diff = sequence (buffer q ! idx) - pos in
       if sint diff < 0 then Some (None, q)
       else if diff = 0 then Some (Some pos, q\<lparr>enqueue_pos := pos + 1\<rparr>)
       else mpmc_push_loop q)"

definition mpmc_push ::
  "'a mpmc_bounded_queue \<Rightarrow> 'a \<Rightarrow> (bool \<times> 'a mpmc_bounded_queue) option" where
  "mpmc_push q v =
     (case mpmc_push_loop q of
        None \<Rightarrow> None
      | Some (None, q') \<Rightarrow> Some (False, q')
      | Some (Some pos, q') \<Rightarrow>
          Some (True, q'\<lparr>buffer := (buffer q')[unat (pos AND buffer_mask q') :=
                              \<lparr>sequence = pos + 1, data = Some v\<rparr>]\<rparr>))"

text \<open>
  \<open>pop(T *data)\<close>: the second argument is the value the caller's variable holds before
  the call, the second component of the result the value it holds afterwards.
\<close>

partial_function (option) mpmc_pop_loop ::
  "'a mpmc_bounded_queue \<Rightarrow> (size_t option \<times> 'a mpmc_bounded_queue) option" where
  "mpmc_pop_loop q =
    (let pos = dequeue_pos q; idx = unat (pos AND buffer_mask q) in
     if length (buffer q) \<le> idx then None
     else let diff = sequence (buffer q ! idx) - (pos + 1) in
       if sint diff < 0 then Some (None, q)
       else if diff = 0 then Some (Some pos, q\<lparr>dequeue_pos := pos + 1\<rparr>)
       else mpmc_pop_loop q)"

definition mpmc_pop ::
  "'a mpmc_bounded_queue \<Rightarrow> 'a \<Rightarrow> (bool \<times> 'a \<times> 'a mpmc_bounded_queue) option" where
  "mpmc_pop q out =
     (case mpmc_pop_loop q of
        None \<Rightarrow> None
      | Some (None, q') \<Rightarrow> Some (False, out, q')
      | Some (Some pos, q') \<Rightarrow>
          (let idx = unat (pos AND buffer_mask q'); cell = buffer q' ! idx in
           case data cell of
             None \<Rightarrow> None
           | Some v \<Rightarrow>
               Some (True, v, q'\<lparr>buffer := (buffer q')[idx :=
                                    cell\<lparr>sequence := pos + buffer_mask q' + 1\<rparr>]\<rparr>)))"

text \<open>A run of calls by one thread: the results of the calls, in order.\<close>

datatype 'a op = Push 'a | Pop

datatype 'a res = Pushed bool | Popped bool 'a

fun mpmc_run ::
  "'a mpmc_bounded_queue \<Rightarrow> 'a \<Rightarrow> 'a op list \<Rightarrow> ('a res list \<times> 'a mpmc_bounded_queue) option" where
  "mpmc_run q out [] = Some ([], q)"
| "mpmc_run q out (Push v # ops) =
     (case mpmc_push q v of
        None \<Rightarrow> None
      | Some (r, q') \<Rightarrow>
          (case mpmc_run q' out ops of
             None \<Rightarrow> None
           | Some (rs, q'') \<Rightarrow> Some (Pushed r # rs, q'')))"
| "mpmc_run q out (Pop # ops) =
     (case mpmc_pop q out of
        None \<Rightarrow> None
      | Some (r, out', q') \<Rightarrow>
          (case mpmc_run q' out' ops of
             None \<Rightarrow> None
           | Some (rs, q'') \<Rightarrow> Some (Popped r out' # rs, q'')))"



section \<open>lock_queue\<close>

text \<open>
  The constructor and \<open>reinit\<close> take the value \<open>T{}\<close> of the sentinel node as an argument.
\<close>

record 'a Node =
  lq_value :: 'a
  lq_next :: "addr option"

record 'a lock_queue =
  lq_first :: "addr option"
  lq_last :: "addr option"
  lq_bufsize :: size_t
  lq_count :: size_t
  lq_divider :: "addr option"
  lq_producer_lock :: bool
  lq_consumer_lock :: bool
  lq_heap :: "addr \<rightharpoonup> 'a Node"
  lq_brk :: addr

definition lq_new_Node :: "'a \<Rightarrow> 'a lock_queue \<Rightarrow> addr \<times> 'a lock_queue" where
  "lq_new_Node v q =
     (lq_brk q, q\<lparr>lq_heap := (lq_heap q)(lq_brk q \<mapsto> \<lparr>lq_value = v, lq_next = None\<rparr>),
                  lq_brk := Suc (lq_brk q)\<rparr>)"

definition lock_queue_ctor :: "size_t \<Rightarrow> 'a \<Rightarrow> 'a lock_queue" where
  "lock_queue_ctor bufsize t0 =
     (let (n, q) = lq_new_Node t0
            \<lparr>lq_first = None, lq_last = None, lq_bufsize = bufsize, lq_count = 0,
             lq_divider = None, lq_producer_lock = False, lq_consumer_lock = False,
             lq_heap = Map.empty, lq_brk = 0\<rparr>
      in q\<lparr>lq_first := Some n, lq_divider := Some n, lq_last := Some n,
            lq_producer_lock := False, lq_consumer_lock := False\<rparr>)"

text \<open>\<open>cleanup\<close>: \<open>while (first != nullptr) { tmp = first; first = tmp->next; delete tmp; }\<close>\<close>

partial_function (option) lq_cleanup :: "'a lock_queue \<Rightarrow> 'a lock_queue option" where
  "lq_cleanup q =
     (case lq_first q of
        None \<Rightarrow> Some q
      | Some tmp \<Rightarrow>
          (case lq_heap q tmp of
             None \<Rightarrow> None
           | Some n \<Rightarrow> lq_cleanup (q\<lparr>lq_first := lq_next n, lq_heap := (lq_heap q)(tmp := None)\<rparr>)))"

definition lq_reinit :: "'a lock_queue \<Rightarrow> 'a \<Rightarrow> 'a lock_queue option" where
  "lq_reinit q t0 =
     (case lq_cleanup q of
        None \<Rightarrow> None
      | Some q1 \<Rightarrow>
          (let (n, q2) = lq_new_Node t0 q1
           in Some (q2\<lparr>lq_first := Some n, lq_divider := Some n, lq_last := Some n,
                       lq_producer_lock := False, lq_consumer_lock := False\<rparr>)))"

text \<open>The spin locks: \<open>while (lock.exchange(true)) { }\<close>.\<close>

partial_function (option) lq_lock_consumer :: "'a lock_queue \<Rightarrow> 'a lock_queue option" where
  "lq_lock_consumer q =
     (if lq_consumer_lock q then lq_lock_consumer (q\<lparr>lq_consumer_lock := True\<rparr>)
      else Some (q\<lparr>lq_consumer_lock := True\<rparr>))"

partial_function (option) lq_lock_producer :: "'a lock_queue \<Rightarrow> 'a lock_queue option" where
  "lq_lock_producer q =
     (if lq_producer_lock q then lq_lock_producer (q\<lparr>lq_producer_lock := True\<rparr>)
      else Some (q\<lparr>lq_producer_lock := True\<rparr>))"

definition lq_pop :: "'a lock_queue \<Rightarrow> 'a \<Rightarrow> (bool \<times> 'a \<times> 'a lock_queue) option" where
  "lq_pop q out =
     (case lq_lock_consumer q of
        None \<Rightarrow> None
      | Some q1 \<Rightarrow>
          (case lq_divider q1 of
             None \<Rightarrow> None
           | Some divl \<Rightarrow>
               (case lq_heap q1 divl of
                  None \<Rightarrow> None
                | Some dn \<Rightarrow>
                    (case lq_next dn of
                       None \<Rightarrow> Some (False, out, q1\<lparr>lq_consumer_lock := False\<rparr>)
                     | Some nxt \<Rightarrow>
                         (case lq_heap q1 nxt of
                            None \<Rightarrow> None
                          | Some nn \<Rightarrow>
                              Some (True, lq_value nn,
                                    q1\<lparr>lq_divider := Some nxt, lq_consumer_lock := False,
                                       lq_count := lq_count q1 - 1\<rparr>))))))"

text \<open>The loop of \<open>push\<close> that frees the nodes before the divider.\<close>

partial_function (option) lq_trim :: "'a lock_queue \<Rightarrow> 'a lock_queue option" where
  "lq_trim q =
     (if lq_first q = lq_divider q then Some q
      else
        (case lq_first q of
           None \<Rightarrow> None
         | Some tmp \<Rightarrow>
             (case lq_heap q tmp of
                None \<Rightarrow> None
              | Some n \<Rightarrow> lq_trim (q\<lparr>lq_first := lq_next n, lq_heap := (lq_heap q)(tmp := None)\<rparr>))))"

definition lq_push :: "'a lock_queue \<Rightarrow> 'a \<Rightarrow> (bool \<times> 'a lock_queue) option" where
  "lq_push q t =
     (if lq_count q = lq_bufsize q then Some (False, q)
      else
        (let (tmp, q1) = lq_new_Node t q in
         case lq_lock_producer q1 of
           None \<Rightarrow> None
         | Some q2 \<Rightarrow>
             (case lq_last q2 of
                None \<Rightarrow> None
              | Some l \<Rightarrow>
                  (case lq_heap q2 l of
                     None \<Rightarrow> None
                   | Some ln \<Rightarrow>
                       (case lq_trim (q2\<lparr>lq_heap := (lq_heap q2)(l \<mapsto> ln\<lparr>lq_next := Some tmp\<rparr>),
                                          lq_last := Some tmp\<rparr>) of
                          None \<Rightarrow> None
                        | Some q3 \<Rightarrow>
                            Some (True, q3\<lparr>lq_producer_lock := False,
                                           lq_count := lq_count q3 + 1\<rparr>))))))"

fun lq_run ::
  "'a lock_queue \<Rightarrow> 'a \<Rightarrow> 'a op list \<Rightarrow> ('a res list \<times> 'a lock_queue) option" where
  "lq_run q out [] = Some ([], q)"
| "lq_run q out (Push v # ops) =
     (case lq_push q v of
        None \<Rightarrow> None
      | Some (r, q') \<Rightarrow>
          (case lq_run q' out ops of
             None \<Rightarrow> None
           | Some (rs, q'') \<Rightarrow> Some (Pushed r # rs, q'')))"
| "lq_run q out (Pop # ops) =
     (case lq_pop q out of
        None \<Rightarrow> None
      | Some (r, out', q') \<Rightarrow>
          (case lq_run q' out' ops of
             None \<Rightarrow> None
           | Some (rs, q'') \<Rightarrow> Some (Popped r out' # rs, q'')))"



section \<open>refcount_stack and refcounting_stack\<close>

text \<open>
  The repository has the split-reference-count stack twice: \<open>refcount_stack\<close>
  (\<open>refcount_stack.hpp\<close>, with \<open>count()\<close>) and \<open>refcounting_stack\<close>
  (\<open>refcounting_stack.hpp\<close>, constructed with a buffer size). The node type, the head,
  \<open>increase_head_count\<close> and the body of the loop of \<open>pop\<close> are the same text in both;
  they are modelled once, on the fields the two classes share.

  Neither constructor initialises \<open>head\<close>. The drivers declare the stacks with static
  storage, where \<open>head\<close> starts as the zero pair: count 0, null pointer.
  \<open>int\<close> arithmetic is the 32-bit machine arithmetic.
\<close>

record counted_node_ptr =
  external_count :: "32 word"
  ptr :: "addr option"

record 'a node =
  rc_data :: "'a option"
  internal_count :: "32 word"
  rc_next :: counted_node_ptr

record 'a rc_core =
  rc_head :: counted_node_ptr
  rc_heap :: "addr \<rightharpoonup> 'a node"
  rc_brk :: addr

record 'a refcount_stack = "'a rc_core" +
  rc_count :: size_t

record 'a refcounting_stack = "'a rc_core" +
  rc_bufsize :: size_t

definition refcount_stack_ctor :: "'a refcount_stack" where
  "refcount_stack_ctor =
     \<lparr>rc_head = \<lparr>external_count = 0, ptr = None\<rparr>, rc_heap = Map.empty, rc_brk = 0,
      rc_count = 0\<rparr>"

definition refcounting_stack_ctor :: "size_t \<Rightarrow> 'a refcounting_stack" where
  "refcounting_stack_ctor bufsize =
     \<lparr>rc_head = \<lparr>external_count = 0, ptr = None\<rparr>, rc_heap = Map.empty, rc_brk = 0,
      rc_bufsize = bufsize\<rparr>"

text \<open>
  \<open>increase_head_count\<close>: the loop around \<open>compare_exchange_strong\<close>, which on failure
  loads the current head into \<open>old_counter\<close>. The result is the updated \<open>old_counter\<close>.
\<close>

partial_function (option) increase_head_count ::
  "('a, 'z) rc_core_scheme \<Rightarrow> counted_node_ptr \<Rightarrow>
   (counted_node_ptr \<times> ('a, 'z) rc_core_scheme) option" where
  "increase_head_count s old_counter =
     (if rc_head s = old_counter
      then Some (old_counter\<lparr>external_count := external_count old_counter + 1\<rparr>,
                 s\<lparr>rc_head := old_counter\<lparr>external_count := external_count old_counter + 1\<rparr>\<rparr>)
      else increase_head_count s (rc_head s))"

text \<open>\<open>ptr->internal_count.fetch_add(d)\<close>: the previous value and the new state.\<close>

definition fetch_add_internal ::
  "addr \<Rightarrow> 32 word \<Rightarrow> ('a, 'z) rc_core_scheme \<Rightarrow> (32 word \<times> ('a, 'z) rc_core_scheme) option" where
  "fetch_add_internal p d s =
     (case rc_heap s p of
        None \<Rightarrow> None
      | Some n \<Rightarrow>
          Some (internal_count n,
                s\<lparr>rc_heap := (rc_heap s)(p \<mapsto> n\<lparr>internal_count := internal_count n + d\<rparr>)\<rparr>))"

definition delete_node :: "addr \<Rightarrow> ('a, 'z) rc_core_scheme \<Rightarrow> ('a, 'z) rc_core_scheme" where
  "delete_node p s = s\<lparr>rc_heap := (rc_heap s)(p := None)\<rparr>"

text \<open>
  One round of the loop of \<open>pop\<close> after the claim, for a non-null \<open>ptr\<close>: the
  compare-exchange of the head from \<open>old_head\<close> to \<open>ptr->next\<close> and the branch taken.
  The state is any state, so the head may differ from \<open>old_head\<close> (another thread has
  moved it since the claim). \<open>Removed res\<close>: the node was unlinked and \<open>res\<close> is the
  \<open>shared_ptr\<close> swapped out of it; \<open>Retry h\<close>: the compare-exchange failed and loaded
  \<open>h\<close> into \<open>old_head\<close>.
\<close>

datatype 'a attempt = Removed "'a option" | Retry counted_node_ptr

definition rc_try_remove ::
  "('a, 'z) rc_core_scheme \<Rightarrow> counted_node_ptr \<Rightarrow> addr \<Rightarrow>
   ('a attempt \<times> ('a, 'z) rc_core_scheme) option" where
  "rc_try_remove s old_head p =
     (case rc_heap s p of
        None \<Rightarrow> None
      | Some n \<Rightarrow>
          if rc_head s = old_head
          then
            (let s1 = s\<lparr>rc_head := rc_next n, rc_heap := (rc_heap s)(p \<mapsto> n\<lparr>rc_data := None\<rparr>)\<rparr>;
                 count_increase = external_count old_head - 2
             in case fetch_add_internal p count_increase s1 of
                  None \<Rightarrow> None
                | Some (prev, s2) \<Rightarrow>
                    Some (Removed (rc_data n),
                          if prev = - count_increase then delete_node p s2 else s2))
          else
            (case fetch_add_internal p (- 1) s of
               None \<Rightarrow> None
             | Some (prev, s1) \<Rightarrow>
                 Some (Retry (rc_head s), if prev = 1 then delete_node p s1 else s1)))"

text \<open>
  The loop \<open>for (;;)\<close> of \<open>pop\<close>, up to the point where the two classes differ. The first
  component of the result is \<open>None\<close> for \<open>return false\<close> on a null head, and the
  \<open>shared_ptr\<close> taken from the node otherwise.
\<close>

partial_function (option) rc_pop_loop ::
  "('a, 'z) rc_core_scheme \<Rightarrow> counted_node_ptr \<Rightarrow>
   ('a option option \<times> ('a, 'z) rc_core_scheme) option" where
  "rc_pop_loop s old_head =
     (case increase_head_count s old_head of
        None \<Rightarrow> None
      | Some (old_head1, s1) \<Rightarrow>
          (case ptr old_head1 of
             None \<Rightarrow> Some (None, s1)
           | Some p \<Rightarrow>
               (case rc_try_remove s1 old_head1 p of
                  None \<Rightarrow> None
                | Some (Removed res, s2) \<Rightarrow> Some (Some res, s2)
                | Some (Retry old_head2, s2) \<Rightarrow> rc_pop_loop s2 old_head2)))"

text \<open>
  The loop \<open>while (!head.compare_exchange_weak(new_node.ptr->next, new_node))\<close> of
  \<open>push\<close>, for the new node at address \<open>p\<close>.
\<close>

partial_function (option) rc_push_cas ::
  "addr \<Rightarrow> ('a, 'z) rc_core_scheme \<Rightarrow> ('a, 'z) rc_core_scheme option" where
  "rc_push_cas p s =
     (case rc_heap s p of
        None \<Rightarrow> None
      | Some n \<Rightarrow>
          if rc_head s = rc_next n
          then Some (s\<lparr>rc_head := \<lparr>external_count = 1, ptr = Some p\<rparr>\<rparr>)
          else rc_push_cas p (s\<lparr>rc_heap := (rc_heap s)(p \<mapsto> n\<lparr>rc_next := rc_head s\<rparr>)\<rparr>))"

definition rc_push_node :: "'a \<Rightarrow> ('a, 'z) rc_core_scheme \<Rightarrow> ('a, 'z) rc_core_scheme option" where
  "rc_push_node v s =
     rc_push_cas (rc_brk s)
       (s\<lparr>rc_heap := (rc_heap s)(rc_brk s \<mapsto>
              \<lparr>rc_data = Some v, internal_count = 0, rc_next = rc_head s\<rparr>),
          rc_brk := Suc (rc_brk s)\<rparr>)"

text \<open>\<open>refcount_stack\<close>: \<open>void push(T)\<close>, \<open>bool pop(T *)\<close>, \<open>reinit\<close>.\<close>

definition refcount_push :: "'a refcount_stack \<Rightarrow> 'a \<Rightarrow> 'a refcount_stack option" where
  "refcount_push s v = rc_push_node v (s\<lparr>rc_count := rc_count s + 1\<rparr>)"

definition refcount_pop ::
  "'a refcount_stack \<Rightarrow> 'a \<Rightarrow> (bool \<times> 'a \<times> 'a refcount_stack) option" where
  "refcount_pop s out =
     (case rc_pop_loop s (rc_head s) of
        None \<Rightarrow> None
      | Some (None, s') \<Rightarrow> Some (False, out, s')
      | Some (Some None, s') \<Rightarrow> Some (False, out, s')
      | Some (Some (Some v), s') \<Rightarrow> Some (True, v, s'\<lparr>rc_count := rc_count s' - 1\<rparr>))"

partial_function (option) refcount_reinit ::
  "'a refcount_stack \<Rightarrow> 'a \<Rightarrow> 'a refcount_stack option" where
  "refcount_reinit s d =
     (case refcount_pop s d of
        None \<Rightarrow> None
      | Some (r, d', s') \<Rightarrow> if r then refcount_reinit s' d' else Some s')"

text \<open>
  \<open>refcounting_stack\<close>: \<open>bool push(T)\<close>, \<open>bool pop(T *)\<close>, \<open>reinit\<close>. Its \<open>pop\<close> ends in
  \<open>data = res.get(); return res != nullptr;\<close>: the assignment is to the parameter
  \<open>data\<close>, a local pointer, so the caller's variable keeps its value.
\<close>

definition refcounting_push ::
  "'a refcounting_stack \<Rightarrow> 'a \<Rightarrow> (bool \<times> 'a refcounting_stack) option" where
  "refcounting_push s v = map_option (Pair True) (rc_push_node v s)"

definition refcounting_pop ::
  "'a refcounting_stack \<Rightarrow> 'a \<Rightarrow> (bool \<times> 'a \<times> 'a refcounting_stack) option" where
  "refcounting_pop s out =
     (case rc_pop_loop s (rc_head s) of
        None \<Rightarrow> None
      | Some (None, s') \<Rightarrow> Some (False, out, s')
      | Some (Some res, s') \<Rightarrow> Some (res \<noteq> None, out, s'))"

partial_function (option) refcounting_reinit ::
  "'a refcounting_stack \<Rightarrow> 'a \<Rightarrow> 'a refcounting_stack option" where
  "refcounting_reinit s d =
     (case refcounting_pop s d of
        None \<Rightarrow> None
      | Some (r, d', s') \<Rightarrow> if r then refcounting_reinit s' d' else Some s')"

text \<open>Runs of calls by one thread. \<open>refcount_stack::push\<close> returns nothing; the run
  records it as \<open>Pushed True\<close>.\<close>

fun refcount_run ::
  "'a refcount_stack \<Rightarrow> 'a \<Rightarrow> 'a op list \<Rightarrow> ('a res list \<times> 'a refcount_stack) option" where
  "refcount_run s out [] = Some ([], s)"
| "refcount_run s out (Push v # ops) =
     (case refcount_push s v of
        None \<Rightarrow> None
      | Some s' \<Rightarrow>
          (case refcount_run s' out ops of
             None \<Rightarrow> None
           | Some (rs, s'') \<Rightarrow> Some (Pushed True # rs, s'')))"
| "refcount_run s out (Pop # ops) =
     (case refcount_pop s out of
        None \<Rightarrow> None
      | Some (r, out', s') \<Rightarrow>
          (case refcount_run s' out' ops of
             None \<Rightarrow> None
           | Some (rs, s'') \<Rightarrow> Some (Popped r out' # rs, s'')))"

fun refcounting_run ::
  "'a refcounting_stack \<Rightarrow> 'a \<Rightarrow> 'a op list \<Rightarrow> ('a res list \<times> 'a refcounting_stack) option" where
  "refcounting_run s out [] = Some ([], s)"
| "refcounting_run s out (Push v # ops) =
     (case refcounting_push s v of
        None \<Rightarrow> None
      | Some (r, s') \<Rightarrow>
          (case refcounting_run s' out ops of
             None \<Rightarrow> None
           | Some (rs, s'') \<Rightarrow> Some (Pushed r # rs, s'')))"
| "refcounting_run s out (Pop # ops) =
     (case refcounting_pop s out of
        None \<Rightarrow> None
      | Some (r, out', s') \<Rightarrow>
          (case refcounting_run s' out' ops of
             None \<Rightarrow> None
           | Some (rs, s'') \<Rightarrow> Some (Popped r out' # rs, s'')))"



section \<open>hp_stack and the hazard pointer table\<close>

text \<open>
  The table \<open>s_hazard_pointers\<close>, the list \<open>nodes_to_reclaim\<close> and the thread-local
  \<open>hp_owner\<close> objects are process-wide. They are fields of the state next to the fields
  of the one stack the drivers declare. The table is an array of
  \<open>s_max_hazard_pointers\<close> slots, modelled as a function of the index, of which only
  the indices below \<open>s_max_hazard_pointers\<close> are ever used. A thread is named by a
  number; the default-constructed \<open>std::thread::id\<close>, which no thread has, is \<open>None\<close>.
  \<open>hazard\<close> maps a thread to the slot its thread-local \<open>hp_owner\<close> holds, once that
  object is constructed. An entry of \<open>nodes_to_reclaim\<close> is the address of the node its
  \<open>data_to_reclaim\<close> refers to.

  The table and the list have static storage and start zeroed: every slot free, every
  pointer null, the list empty. The constructor of \<open>hp_stack\<close> does not initialise
  \<open>head\<close>; the drivers declare the stack with static storage, where it starts null.
\<close>

type_synonym tid = nat

record hazard_pointer =
  hp_id :: "tid option"
  hp_pointer :: "addr option"

definition s_max_hazard_pointers :: nat where
  "s_max_hazard_pointers = 100"

record 'a hp_node =
  hp_data :: 'a
  hp_next :: "addr option"

record 'a hp_stack =
  s_hazard_pointers :: "nat \<Rightarrow> hazard_pointer"
  nodes_to_reclaim :: "addr list"
  hazard :: "tid \<rightharpoonup> nat"
  hp_head :: "addr option"
  hp_bufsize :: size_t
  hp_heap :: "addr \<rightharpoonup> 'a hp_node"
  hp_brk :: addr

definition hp_stack_ctor :: "size_t \<Rightarrow> 'a hp_stack" where
  "hp_stack_ctor bufsize =
     \<lparr>s_hazard_pointers = (\<lambda>i. \<lparr>hp_id = None, hp_pointer = None\<rparr>),
      nodes_to_reclaim = [], hazard = Map.empty, hp_head = None, hp_bufsize = bufsize,
      hp_heap = Map.empty, hp_brk = 0\<rparr>"

text \<open>
  The constructor of \<open>hp_owner\<close>, run by thread \<open>t\<close>: the loop over the slots takes the
  first one whose \<open>id\<close> is the default id, and the constructor throws when it found none.
\<close>

function hp_owner_scan ::
  "nat \<Rightarrow> tid \<Rightarrow> (nat \<Rightarrow> hazard_pointer) \<Rightarrow> nat option \<times> (nat \<Rightarrow> hazard_pointer)" where
  "hp_owner_scan i t reg =
     (if i < s_max_hazard_pointers
      then (if hp_id (reg i) = None
            then (Some i, reg(i := (reg i)\<lparr>hp_id := Some t\<rparr>))
            else hp_owner_scan (i + 1) t reg)
      else (None, reg))"
  by pat_completeness auto
termination
  by (relation "measure (\<lambda>(i, t, reg). s_max_hazard_pointers - i)") auto

declare hp_owner_scan.simps [simp del]

definition hp_owner_ctor ::
  "tid \<Rightarrow> (nat \<Rightarrow> hazard_pointer) \<Rightarrow> error + nat \<times> (nat \<Rightarrow> hazard_pointer)" where
  "hp_owner_ctor t reg =
     (case hp_owner_scan 0 t reg of
        (None, reg') \<Rightarrow> Inl (RuntimeError ''No hazard pointers available'')
      | (Some i, reg') \<Rightarrow> Inr (i, reg'))"

text \<open>The destructor of \<open>hp_owner\<close>, run when thread \<open>t\<close> ends.\<close>

definition hp_owner_dtor :: "tid \<Rightarrow> 'a hp_stack \<Rightarrow> 'a hp_stack" where
  "hp_owner_dtor t st =
     (case hazard st t of
        None \<Rightarrow> st
      | Some i \<Rightarrow>
          st\<lparr>s_hazard_pointers := (s_hazard_pointers st)(i := \<lparr>hp_id = None, hp_pointer = None\<rparr>),
             hazard := (hazard st)(t := None)\<rparr>)"

text \<open>
  \<open>get_hazard_pointer_for_current_thread\<close>: the thread-local \<open>hp_owner\<close> is constructed
  on the thread's first call; an exception of the constructor leaves it unconstructed.
\<close>

definition get_hazard_pointer_for_current_thread ::
  "tid \<Rightarrow> 'a hp_stack \<Rightarrow> error + nat \<times> 'a hp_stack" where
  "get_hazard_pointer_for_current_thread t st =
     (case hazard st t of
        Some i \<Rightarrow> Inr (i, st)
      | None \<Rightarrow>
          (case hp_owner_ctor t (s_hazard_pointers st) of
             Inl e \<Rightarrow> Inl e
           | Inr (i, reg') \<Rightarrow>
               Inr (i, st\<lparr>s_hazard_pointers := reg', hazard := (hazard st)(t \<mapsto> i)\<rparr>)))"

function outstanding_scan :: "nat \<Rightarrow> addr \<Rightarrow> (nat \<Rightarrow> hazard_pointer) \<Rightarrow> bool" where
  "outstanding_scan i p reg =
     (if i < s_max_hazard_pointers
      then (if hp_pointer (reg i) = Some p then True else outstanding_scan (i + 1) p reg)
      else False)"
  by pat_completeness auto
termination
  by (relation "measure (\<lambda>(i, p, reg). s_max_hazard_pointers - i)") auto

declare outstanding_scan.simps [simp del]

definition outstanding_hazard_pointers_for :: "addr \<Rightarrow> (nat \<Rightarrow> hazard_pointer) \<Rightarrow> bool" where
  "outstanding_hazard_pointers_for p reg = outstanding_scan 0 p reg"

definition add_to_reclaim_list :: "addr \<Rightarrow> 'a hp_stack \<Rightarrow> 'a hp_stack" where
  "add_to_reclaim_list p st = st\<lparr>nodes_to_reclaim := p # nodes_to_reclaim st\<rparr>"

definition reclaim_later :: "addr \<Rightarrow> 'a hp_stack \<Rightarrow> 'a hp_stack" where
  "reclaim_later p st = add_to_reclaim_list p st"

text \<open>
  \<open>delete_nodes_with_no_hazards\<close>: the whole list is exchanged for the empty one, and
  each entry is deleted (which deletes its node) or put back.
\<close>

fun reclaim_each :: "addr list \<Rightarrow> 'a hp_stack \<Rightarrow> 'a hp_stack" where
  "reclaim_each [] st = st"
| "reclaim_each (p # rest) st =
     reclaim_each rest
       (if \<not> outstanding_hazard_pointers_for p (s_hazard_pointers st)
        then st\<lparr>hp_heap := (hp_heap st)(p := None)\<rparr>
        else add_to_reclaim_list p st)"

definition delete_nodes_with_no_hazards :: "'a hp_stack \<Rightarrow> 'a hp_stack" where
  "delete_nodes_with_no_hazards st =
     reclaim_each (nodes_to_reclaim st) (st\<lparr>nodes_to_reclaim := []\<rparr>)"

text \<open>\<open>push\<close>: the new node and the loop around \<open>compare_exchange_weak\<close>.\<close>

partial_function (option) hp_push_cas :: "addr \<Rightarrow> 'a hp_stack \<Rightarrow> 'a hp_stack option" where
  "hp_push_cas p st =
     (case hp_heap st p of
        None \<Rightarrow> None
      | Some n \<Rightarrow>
          if hp_head st = hp_next n then Some (st\<lparr>hp_head := Some p\<rparr>)
          else hp_push_cas p (st\<lparr>hp_heap := (hp_heap st)(p \<mapsto> n\<lparr>hp_next := hp_head st\<rparr>)\<rparr>))"

definition hp_push :: "'a hp_stack \<Rightarrow> 'a \<Rightarrow> (bool \<times> 'a hp_stack) option" where
  "hp_push st v =
     map_option (Pair True)
       (hp_push_cas (hp_brk st)
          (st\<lparr>hp_heap := (hp_heap st)(hp_brk st \<mapsto> \<lparr>hp_data = v, hp_next = hp_head st\<rparr>),
              hp_brk := Suc (hp_brk st)\<rparr>))"

text \<open>
  \<open>pop\<close>, run by thread \<open>t\<close>. The inner loop publishes \<open>old_head\<close> in the thread's slot
  \<open>i\<close> until the head is seen unchanged; the outer loop ends on a null head or a
  successful compare-exchange of the head.
\<close>

definition hp_store :: "nat \<Rightarrow> addr option \<Rightarrow> 'a hp_stack \<Rightarrow> 'a hp_stack" where
  "hp_store i p st =
     st\<lparr>s_hazard_pointers := (s_hazard_pointers st)(i := (s_hazard_pointers st i)\<lparr>hp_pointer := p\<rparr>)\<rparr>"

partial_function (option) hp_publish ::
  "nat \<Rightarrow> 'a hp_stack \<Rightarrow> addr option \<Rightarrow> (addr option \<times> 'a hp_stack) option" where
  "hp_publish i st old_head =
     (if hp_head (hp_store i old_head st) \<noteq> old_head
      then hp_publish i (hp_store i old_head st) (hp_head (hp_store i old_head st))
      else Some (hp_head (hp_store i old_head st), hp_store i old_head st))"

partial_function (option) hp_pop_loop ::
  "nat \<Rightarrow> 'a hp_stack \<Rightarrow> addr option \<Rightarrow> (addr option \<times> 'a hp_stack) option" where
  "hp_pop_loop i st old_head =
     (case hp_publish i st old_head of
        None \<Rightarrow> None
      | Some (None, st1) \<Rightarrow> Some (None, st1)
      | Some (Some a, st1) \<Rightarrow>
          (case hp_heap st1 a of
             None \<Rightarrow> None
           | Some n \<Rightarrow>
               if hp_head st1 = Some a then Some (Some a, st1\<lparr>hp_head := hp_next n\<rparr>)
               else hp_pop_loop i st1 (hp_head st1)))"

definition hp_pop ::
  "tid \<Rightarrow> 'a hp_stack \<Rightarrow> 'a \<Rightarrow> (error + bool \<times> 'a \<times> 'a hp_stack) option" where
  "hp_pop t st out =
     (case get_hazard_pointer_for_current_thread t st of
        Inl e \<Rightarrow> Some (Inl e)
      | Inr (i, st0) \<Rightarrow>
          (case hp_pop_loop i st0 (hp_head st0) of
             None \<Rightarrow> None
           | Some (None, st1) \<Rightarrow> Some (Inr (False, out, hp_store i None st1))
           | Some (Some a, st1) \<Rightarrow>
               (let st2 = hp_store i None st1 in
                case hp_heap st2 a of
                  None \<Rightarrow> None
                | Some n \<Rightarrow>
                    Some (Inr (True, hp_data n,
                      delete_nodes_with_no_hazards
                        (if outstanding_hazard_pointers_for a (s_hazard_pointers st2)
                         then reclaim_later a st2
                         else st2\<lparr>hp_heap := (hp_heap st2)(a := None)\<rparr>))))))"

partial_function (option) hp_reinit ::
  "tid \<Rightarrow> 'a hp_stack \<Rightarrow> 'a \<Rightarrow> (error + 'a hp_stack) option" where
  "hp_reinit t st d =
     (case hp_pop t st d of
        None \<Rightarrow> None
      | Some (Inl e) \<Rightarrow> Some (Inl e)
      | Some (Inr (r, d', st')) \<Rightarrow> if r then hp_reinit t st' d' else Some (Inr st'))"

text \<open>A run of calls by thread \<open>t\<close>; it ends at the first exception.\<close>

fun hp_run ::
  "tid \<Rightarrow> 'a hp_stack \<Rightarrow> 'a \<Rightarrow> 'a op list \<Rightarrow> (error + 'a res list \<times> 'a hp_stack) option" where
  "hp_run t st out [] = Some (Inr ([], st))"
| "hp_run t st out (Push v # ops) =
     (case hp_push st v of
        None \<Rightarrow> None
      | Some (r, st') \<Rightarrow>
          (case hp_run t st' out ops of
             None \<Rightarrow> None
           | Some (Inl e) \<Rightarrow> Some (Inl e)
           | Some (Inr (rs, st'')) \<Rightarrow> Some (Inr (Pushed r # rs, st''))))"
| "hp_run t st out (Pop # ops) =
     (case hp_pop t st out of
        None \<Rightarrow> None
      | Some (Inl e) \<Rightarrow> Some (Inl e)
      | Some (Inr (r, out', st')) \<Rightarrow>
          (case hp_run t st' out' ops of
             None \<Rightarrow> None
           | Some (Inl e) \<Rightarrow> Some (Inl e)
           | Some (Inr (rs, st'')) \<Rightarrow> Some (Inr (Popped r out' # rs, st''))))"



section \<open>Reference behaviour and representation invariants\<close>

text \<open>
  The behaviour the specification gives a stack used by one thread at a time: a list,
  pushed and popped at its head. \<open>out\<close> is the caller's variable, which a failed \<open>pop\<close>
  leaves alone.
\<close>

fun spec_lifo_run :: "'a list \<Rightarrow> 'a \<Rightarrow> 'a op list \<Rightarrow> 'a res list" where
  "spec_lifo_run xs out [] = []"
| "spec_lifo_run xs out (Push v # ops) = Pushed True # spec_lifo_run (v # xs) out ops"
| "spec_lifo_run [] out (Pop # ops) = Popped False out # spec_lifo_run [] out ops"
| "spec_lifo_run (x # xs) out (Pop # ops) = Popped True x # spec_lifo_run xs x ops"

text \<open>
  The nodes reachable from the head of a split-reference-count stack, through the
  addresses \<open>as\<close>, hold the values \<open>xs\<close>.
\<close>

fun rc_chain :: "(addr \<rightharpoonup> 'a node) \<Rightarrow> addr option \<Rightarrow> addr list \<Rightarrow> 'a list \<Rightarrow> bool" where
  "rc_chain h p [] xs = (p = None \<and> xs = [])"
| "rc_chain h p (a # as) xs =
     (p = Some a \<and>
      (case (h a, xs) of
         (Some n, x # xs') \<Rightarrow> rc_data n = Some x \<and> rc_chain h (ptr (rc_next n)) as xs'
       | _ \<Rightarrow> False))"

definition rc_inv :: "('a, 'z) rc_core_scheme \<Rightarrow> 'a list \<Rightarrow> bool" where
  "rc_inv s xs \<longleftrightarrow>
     (\<exists>as. rc_chain (rc_heap s) (ptr (rc_head s)) as xs \<and> distinct as \<and>
           (\<forall>a \<in> dom (rc_heap s). a < rc_brk s))"

text \<open>The same for \<open>hp_stack\<close>, with no hazard pointer published and nothing waiting to
  be reclaimed, and with a free slot for thread \<open>t\<close> if it has none yet.\<close>

fun hp_chain :: "(addr \<rightharpoonup> 'a hp_node) \<Rightarrow> addr option \<Rightarrow> addr list \<Rightarrow> 'a list \<Rightarrow> bool" where
  "hp_chain h p [] xs = (p = None \<and> xs = [])"
| "hp_chain h p (a # as) xs =
     (p = Some a \<and>
      (case (h a, xs) of
         (Some n, x # xs') \<Rightarrow> hp_data n = x \<and> hp_chain h (hp_next n) as xs'
       | _ \<Rightarrow> False))"

definition hp_list :: "(addr \<rightharpoonup> 'a hp_node) \<Rightarrow> addr option \<Rightarrow> 'a list \<Rightarrow> bool" where
  "hp_list h p xs \<longleftrightarrow> (\<exists>as. hp_chain h p as xs \<and> distinct as)"

definition hp_inv :: "tid \<Rightarrow> 'a hp_stack \<Rightarrow> 'a list \<Rightarrow> bool" where
  "hp_inv t st xs \<longleftrightarrow>
     hp_list (hp_heap st) (hp_head st) xs \<and>
     (\<forall>a \<in> dom (hp_heap st). a < hp_brk st) \<and>
     nodes_to_reclaim st = [] \<and>
     (\<forall>i. hp_pointer (s_hazard_pointers st i) = None) \<and>
     (hazard st t = None \<longrightarrow> hp_id (s_hazard_pointers st 0) = None)"

text \<open>
  Threads \<open>0, \<dots>, k - 1\<close> hold the slots \<open>0, \<dots>, k - 1\<close> of the table, the other slots are
  free, and the stack is empty.
\<close>

definition hp_registered :: "nat \<Rightarrow> 'a hp_stack \<Rightarrow> bool" where
  "hp_registered k st \<longleftrightarrow>
     (\<forall>i. s_hazard_pointers st i = \<lparr>hp_id = (if i < k then Some i else None), hp_pointer = None\<rparr>) \<and>
     (\<forall>t. hazard st t = (if t < k then Some t else None)) \<and>
     hp_head st = None"

text \<open>The threads of a list call \<open>pop\<close> once each, one after the other.\<close>

fun hp_pop_each :: "tid list \<Rightarrow> 'a hp_stack \<Rightarrow> 'a \<Rightarrow> (error + 'a hp_stack) option" where
  "hp_pop_each [] st out = Some (Inr st)"
| "hp_pop_each (t # ts) st out =
     (case hp_pop t st out of
        None \<Rightarrow> None
      | Some (Inl e) \<Rightarrow> Some (Inl e)
      | Some (Inr (r, out', st')) \<Rightarrow> hp_pop_each ts st' out')"

text \<open>
  The behaviour the specification gives a queue of capacity \<open>cap\<close> used by one thread at
  a time: a list, pushed at its end unless it holds \<open>cap\<close> values, popped at its head.
\<close>

fun spec_fifo_run :: "nat \<Rightarrow> 'a list \<Rightarrow> 'a \<Rightarrow> 'a op list \<Rightarrow> 'a res list" where
  "spec_fifo_run cap xs out [] = []"
| "spec_fifo_run cap xs out (Push v # ops) =
     (if length xs = cap then Pushed False # spec_fifo_run cap xs out ops
      else Pushed True # spec_fifo_run cap (xs @ [v]) out ops)"
| "spec_fifo_run cap [] out (Pop # ops) = Popped False out # spec_fifo_run cap [] out ops"
| "spec_fifo_run cap (x # xs) out (Pop # ops) = Popped True x # spec_fifo_run cap xs x ops"

text \<open>
  \<open>lock_queue\<close>: the list from \<open>first\<close> runs through the consumed nodes \<open>cs\<close> to the
  divider \<open>d\<close> and on through the pending nodes \<open>ps\<close> to \<open>last\<close>; the pending nodes
  hold the values of the queue, both locks are free, and \<open>count_\<close> is the number of
  pending nodes.
\<close>

fun lq_path :: "(addr \<rightharpoonup> 'a Node) \<Rightarrow> addr option \<Rightarrow> addr list \<Rightarrow> addr option \<Rightarrow> bool" where
  "lq_path h p [] q = (p = q)"
| "lq_path h p (a # as) q =
     (p = Some a \<and> (case h a of None \<Rightarrow> False | Some n \<Rightarrow> lq_path h (lq_next n) as q))"

definition lq_shape ::
  "'a lock_queue \<Rightarrow> addr list \<Rightarrow> addr \<Rightarrow> addr list \<Rightarrow> bool" where
  "lq_shape q cs d ps \<longleftrightarrow>
     lq_path (lq_heap q) (lq_first q) cs (Some d) \<and> lq_divider q = Some d \<and>
     lq_path (lq_heap q) (Some d) (d # ps) None \<and> lq_last q = Some (last (d # ps)) \<and>
     distinct (cs @ d # ps)"

definition lq_list :: "'a lock_queue \<Rightarrow> 'a list \<Rightarrow> bool" where
  "lq_list q xs \<longleftrightarrow>
     (\<exists>cs d ps. lq_shape q cs d ps \<and>
        map (\<lambda>a. map_option lq_value (lq_heap q a)) ps = map Some xs)"

definition lq_inv :: "'a lock_queue \<Rightarrow> 'a list \<Rightarrow> bool" where
  "lq_inv q xs \<longleftrightarrow>
     lq_list q xs \<and>
     (\<forall>a \<in> dom (lq_heap q). a < lq_brk q) \<and>
     \<not> lq_producer_lock q \<and> \<not> lq_consumer_lock q \<and>
     lq_count q = of_nat (length xs) \<and> length xs \<le> unat (lq_bufsize q)"

text \<open>
  \<open>mpmc_bounded_queue\<close> with \<open>2 ^ m\<close> cells, after \<open>d\<close> successful pops and holding \<open>xs\<close>:
  the cell of position \<open>d + k\<close> holds \<open>xs ! k\<close> under sequence number \<open>d + k + 1\<close> for
  \<open>k < length xs\<close>, and is free under sequence number \<open>d + k\<close> for the other \<open>k\<close>.
\<close>

definition mpmc_rep :: "nat \<Rightarrow> 'a mpmc_bounded_queue \<Rightarrow> nat \<Rightarrow> 'a list \<Rightarrow> bool" where
  "mpmc_rep m q d xs \<longleftrightarrow>
     length (buffer q) = 2 ^ m \<and> buffer_mask q = 2 ^ m - 1 \<and>
     dequeue_pos q = of_nat d \<and> enqueue_pos q = of_nat (d + length xs) \<and>
     length xs \<le> 2 ^ m \<and>
     (\<forall>k < length xs. buffer q ! ((d + k) mod 2 ^ m) =
        \<lparr>sequence = of_nat (d + k + 1), data = Some (xs ! k)\<rparr>) \<and>
     (\<forall>k. length xs \<le> k \<and> k < 2 ^ m \<longrightarrow>
        sequence (buffer q ! ((d + k) mod 2 ^ m)) = of_nat (d + k))"

definition mpmc_inv :: "nat \<Rightarrow> 'a mpmc_bounded_queue \<Rightarrow> 'a list \<Rightarrow> bool" where
  "mpmc_inv m q xs \<longleftrightarrow> 1 \<le> m \<and> m < 64 \<and> (\<exists>d. mpmc_rep m q d xs)"

section \<open>Theorems\<close>

subsection \<open>mpmc_bounded_queue: construction\<close>

text \<open>
  C10. The constructor of the bounded queue asserts that the capacity is at least 2 as
  well as a power of two: for every capacity below 2 (0 and 1, the latter a power of
  two) the construction ends in the failed assertion and yields no queue, and at that
  point the cell buffer of that size has already been allocated.
\<close>

theorem mpmc_ctor_below_two:
  "bufsize < 2 \<Longrightarrow>
   (mpmc_bounded_queue_ctor bufsize allocs :: size_t list \<times> (error + 'a mpmc_bounded_queue) option)
     = (allocs @ [bufsize], Some (Inl AssertionFailed))"
  by (simp add: mpmc_bounded_queue_ctor_def Let_def not_le)

theorem mpmc_ctor_below_two_witness:
  "(1 :: size_t) < 2 \<and>
   (mpmc_bounded_queue_ctor 1 [] :: size_t list \<times> (error + int mpmc_bounded_queue) option)
     = ([] @ [1], Some (Inl AssertionFailed))"
  using mpmc_ctor_below_two [of 1 "[]"] by simp

subsection \<open>mpmc_bounded_queue: five pushes into four cells\<close>

lemma new_cells_4:
  "(new_cells 4 :: 'a cell_t list) =
     replicate (Suc (Suc (Suc (Suc 0)))) \<lparr>sequence = 0, data = None\<rparr>"
proof -
  have "unat (4 :: size_t) = Suc (Suc (Suc (Suc 0)))" by simp
  then show ?thesis by (simp only: new_cells_def)
qed

lemma mpmc_ctor_4:
  "mpmc_bounded_queue_ctor 4 allocs =
     (allocs @ [4],
      Some (Inr \<lparr>buffer = [\<lparr>sequence = 0, data = None\<rparr>, \<lparr>sequence = 1, data = None\<rparr>,
                          \<lparr>sequence = 2, data = None\<rparr>, \<lparr>sequence = 3, data = None\<rparr>],
                buffer_mask = 3, enqueue_pos = 0, dequeue_pos = 0\<rparr>))"
  by (simp add: mpmc_bounded_queue_ctor_def Let_def mpmc_reinit_def new_cells_4
      reinit_fill.simps)

text \<open>
  C6. On a bounded queue constructed with capacity 4, five calls of \<open>push\<close> with no \<open>pop\<close>
  in between all return, the first four with \<open>true\<close> and the fifth with \<open>false\<close>.
\<close>

theorem mpmc_five_pushes_capacity_four:
  "\<exists>q0 q'. mpmc_bounded_queue_ctor 4 allocs = (allocs @ [4], Some (Inr q0)) \<and>
     mpmc_run q0 out [Push a, Push b, Push c, Push d, Push e] =
       Some ([Pushed True, Pushed True, Pushed True, Pushed True, Pushed False], q')"
  by (simp add: mpmc_ctor_4 mpmc_push_def mpmc_push_loop.simps Let_def)


subsection \<open>lock_queue: the capacity counter\<close>

lemmas lq_eval =
  lock_queue_ctor_def lq_new_Node_def lq_push_def lq_lock_producer.simps lq_trim.simps
  lq_reinit_def lq_cleanup.simps lq_pop_def lq_lock_consumer.simps

text \<open>
  C7. \<open>lock_queue::push\<close> returns \<open>false\<close> exactly when \<open>count_\<close> equals \<open>bufsize_\<close> at the
  start of the call, and then the queue it leaves is the queue it found: no node is
  appended and the counter is not changed.
\<close>

theorem lq_push_false_iff:
  "lq_push q t = Some (False, q') \<longleftrightarrow> lq_count q = lq_bufsize q \<and> q' = q"
  by (auto simp: lq_push_def Let_def split: prod.splits option.splits)

theorem lq_push_false_iff_witness:
  "\<exists>q1. lq_push (lock_queue_ctor 1 (0::int)) 5 = Some (True, q1) \<and>
        lq_count q1 = lq_bufsize q1 \<and> lq_push q1 6 = Some (False, q1)"
proof -
  obtain q1 where q1: "lq_push (lock_queue_ctor 1 (0::int)) 5 = Some (True, q1)"
    and c: "lq_count q1 = lq_bufsize q1"
    by (simp add: lq_eval)
  from c have "lq_push q1 6 = Some (False, q1)"
    using lq_push_false_iff [of q1 6 q1] by simp
  with q1 c show ?thesis by blast
qed

lemma lq_cleanup_count:
  assumes "lq_cleanup q = Some q'"
  shows "lq_count q' = lq_count q \<and> lq_bufsize q' = lq_bufsize q"
proof (rule lq_cleanup.raw_induct
    [where P = "\<lambda>q q'. lq_count q' = lq_count q \<and> lq_bufsize q' = lq_bufsize q", OF _ assms])
  fix cleanup :: "'a lock_queue \<Rightarrow> 'a lock_queue option" and q q'
  assume IH: "\<And>q q'. cleanup q = Some q' \<Longrightarrow>
      lq_count q' = lq_count q \<and> lq_bufsize q' = lq_bufsize q"
    and step: "(case lq_first q of
        None \<Rightarrow> Some q
      | Some tmp \<Rightarrow>
          (case lq_heap q tmp of
             None \<Rightarrow> None
           | Some n \<Rightarrow> cleanup (q\<lparr>lq_first := lq_next n, lq_heap := (lq_heap q)(tmp := None)\<rparr>)))
       = Some q'"
  show "lq_count q' = lq_count q \<and> lq_bufsize q' = lq_bufsize q"
  proof (cases "lq_first q")
    case None
    with step show ?thesis by simp
  next
    case (Some tmp)
    with step obtain n where "lq_heap q tmp = Some n"
      and "cleanup (q\<lparr>lq_first := lq_next n, lq_heap := (lq_heap q)(tmp := None)\<rparr>) = Some q'"
      by (auto split: option.splits)
    from IH [OF this(2)] show ?thesis by simp
  qed
qed

lemma lq_reinit_count:
  "lq_reinit q t0 = Some q' \<Longrightarrow> lq_count q' = lq_count q"
  by (auto simp: lq_reinit_def lq_new_Node_def Let_def split: option.splits dest: lq_cleanup_count)

text \<open>
  C2. \<open>lock_queue::reinit\<close> does not reset \<open>count_\<close>. On a queue of capacity 1, after one
  successful \<open>push\<close> and \<open>reinit\<close>, the queue is empty (\<open>pop\<close> returns \<open>false\<close>) but \<open>count_\<close>
  is still 1 and the next \<open>push\<close> returns \<open>false\<close>; on a newly constructed queue of
  capacity 1 \<open>count_\<close> is 0 and the same \<open>push\<close> returns \<open>true\<close>.
\<close>

theorem lq_reinit_keeps_count:
  "\<exists>q1 q2 q3. lq_push (lock_queue_ctor 1 (0::int)) 5 = Some (True, q1) \<and>
      lq_reinit q1 0 = Some q2 \<and> lq_count q2 = 1 \<and>
      lq_pop q2 9 = Some (False, 9, q2) \<and>
      lq_push q2 6 = Some (False, q2) \<and>
      lq_count (lock_queue_ctor 1 (0::int)) = 0 \<and>
      lq_push (lock_queue_ctor 1 (0::int)) 6 = Some (True, q3)"
  by (simp add: lq_eval)


subsection \<open>refcounting_stack: the out parameter of pop\<close>

lemmas rc_eval =
  refcounting_stack_ctor_def refcount_stack_ctor_def refcounting_push_def refcount_push_def
  rc_push_node_def rc_push_cas.simps refcounting_pop_def refcount_pop_def rc_pop_loop.simps
  increase_head_count.simps rc_try_remove_def fetch_add_internal_def delete_node_def

lemma refcounting_pop_out_unchanged:
  "refcounting_pop s out = Some (r, out', s') \<Longrightarrow> out' = out"
  by (auto simp: refcounting_pop_def split: option.splits prod.splits)

text \<open>
  C1. \<open>refcounting_stack::pop\<close> returns \<open>true\<close> without writing through its parameter: on
  a stack that holds the single element 7, \<open>pop(&x)\<close> with \<open>x = -1\<close> returns \<open>true\<close> and
  leaves \<open>x = -1\<close>.
\<close>

theorem refcounting_pop_single:
  "\<exists>s1 s2. refcounting_push (refcounting_stack_ctor 128) (7::int) = Some (True, s1) \<and>
      refcounting_pop s1 (- 1) = Some (True, - 1, s2)"
  by (simp add: rc_eval)

text \<open>
  C3. On a \<open>refcounting_stack\<close>, one thread pushes 1 and 2 and then pops, into a variable
  that holds 0, until \<open>pop\<close> returns \<open>false\<close>: both successful calls of \<open>pop\<close> leave 0 in
  the variable, so the values drained are 0 and 0 and not the values pushed.
\<close>

theorem refcounting_drain:
  "\<exists>s. refcounting_run (refcounting_stack_ctor 128) (0::int) [Push 1, Push 2, Pop, Pop, Pop] =
      Some ([Pushed True, Pushed True, Popped True 0, Popped True 0, Popped False 0], s)"
  by (simp add: rc_eval)


subsection \<open>The split reference count in pop\<close>

lemma rc_try_remove_live:
  "rc_heap s p = Some n \<Longrightarrow>
   rc_try_remove s old_head p = Some
     (if rc_head s = old_head
      then (Removed (rc_data n),
            s\<lparr>rc_head := rc_next n,
              rc_heap := (rc_heap s)(p :=
                 if internal_count n + (external_count old_head - 2) = 0 then None
                 else Some (n\<lparr>rc_data := None,
                             internal_count := internal_count n + (external_count old_head - 2)\<rparr>))\<rparr>)
      else (Retry (rc_head s),
            s\<lparr>rc_heap := (rc_heap s)(p :=
                 if internal_count n - 1 = 0 then None
                 else Some (n\<lparr>internal_count := internal_count n - 1\<rparr>))\<rparr>))"
  by (auto simp: rc_try_remove_def fetch_add_internal_def delete_node_def Let_def add_eq_0_iff2)

text \<open>
  C9. In \<open>pop\<close> of the split-reference-count stack, for a claimed head copy \<open>old_head\<close>
  with external count \<open>c\<close> that points to a live node with internal count \<open>k\<close>: when the
  compare-exchange of the head succeeds, the internal count becomes \<open>k + (c - 2)\<close> and the
  node is freed exactly when that sum is zero; when it fails, the internal count becomes
  \<open>k - 1\<close> and the node is freed exactly when that is zero. The source tests the value
  \<open>fetch_add\<close> returns against the negated addend.
\<close>

theorem rc_try_remove_counts:
  "rc_heap s p = Some n \<Longrightarrow>
   rc_try_remove s old_head p = Some
     (if rc_head s = old_head
      then (Removed (rc_data n),
            s\<lparr>rc_head := rc_next n,
              rc_heap := (rc_heap s)(p :=
                 if internal_count n + (external_count old_head - 2) = 0 then None
                 else Some (n\<lparr>rc_data := None,
                             internal_count := internal_count n + (external_count old_head - 2)\<rparr>))\<rparr>)
      else (Retry (rc_head s),
            s\<lparr>rc_heap := (rc_heap s)(p :=
                 if internal_count n - 1 = 0 then None
                 else Some (n\<lparr>internal_count := internal_count n - 1\<rparr>))\<rparr>))"
  by (rule rc_try_remove_live)

theorem rc_try_remove_counts_witness:
  "rc_try_remove
     \<lparr>rc_head = \<lparr>external_count = 2, ptr = Some 0\<rparr>,
      rc_heap = [0 \<mapsto> \<lparr>rc_data = Some (7::int), internal_count = 0,
                        rc_next = \<lparr>external_count = 0, ptr = None\<rparr>\<rparr>],
      rc_brk = 1\<rparr>
     \<lparr>external_count = 2, ptr = Some 0\<rparr> 0
   = Some (Removed (Some 7),
       \<lparr>rc_head = \<lparr>external_count = 0, ptr = None\<rparr>, rc_heap = Map.empty, rc_brk = 1\<rparr>) \<and>
   rc_try_remove
     \<lparr>rc_head = \<lparr>external_count = 0, ptr = None\<rparr>,
      rc_heap = [0 \<mapsto> \<lparr>rc_data = None, internal_count = 1,
                        rc_next = \<lparr>external_count = 0, ptr = None\<rparr>\<rparr>],
      rc_brk = 1\<rparr>
     \<lparr>external_count = 3, ptr = Some 0\<rparr> 0
   = Some (Retry \<lparr>external_count = 0, ptr = None\<rparr>,
       \<lparr>rc_head = \<lparr>external_count = 0, ptr = None\<rparr>,
        rc_heap = (Map.empty :: addr \<rightharpoonup> int node), rc_brk = 1\<rparr>)"
  using
    rc_try_remove_counts [of
      "\<lparr>rc_head = \<lparr>external_count = 2, ptr = Some 0\<rparr>,
        rc_heap = [0 \<mapsto> \<lparr>rc_data = Some (7::int), internal_count = 0,
                          rc_next = \<lparr>external_count = 0, ptr = None\<rparr>\<rparr>],
        rc_brk = 1\<rparr>" 0
      "\<lparr>rc_data = Some (7::int), internal_count = 0,
        rc_next = \<lparr>external_count = 0, ptr = None\<rparr>\<rparr>"
      "\<lparr>external_count = 2, ptr = Some 0\<rparr>"]
    rc_try_remove_counts [of
      "\<lparr>rc_head = \<lparr>external_count = 0, ptr = None\<rparr>,
        rc_heap = [0 \<mapsto> \<lparr>rc_data = (None :: int option), internal_count = 1,
                          rc_next = \<lparr>external_count = 0, ptr = None\<rparr>\<rparr>],
        rc_brk = 1\<rparr>" 0
      "\<lparr>rc_data = (None :: int option), internal_count = 1,
        rc_next = \<lparr>external_count = 0, ptr = None\<rparr>\<rparr>"
      "\<lparr>external_count = 3, ptr = Some 0\<rparr>"]
  by simp


subsection \<open>The hazard pointer table runs out\<close>

lemma hp_owner_scan_full:
  "(\<And>j. i \<le> j \<Longrightarrow> j < s_max_hazard_pointers \<Longrightarrow> hp_id (reg j) \<noteq> None) \<Longrightarrow>
   hp_owner_scan i t reg = (None, reg)"
proof (induction i t reg rule: hp_owner_scan.induct)
  case (1 i t reg)
  show ?case
  proof (cases "i < s_max_hazard_pointers")
    case True
    then have occ: "hp_id (reg i) \<noteq> None" using "1.prems" [of i] by simp
    have "hp_owner_scan (i + 1) t reg = (None, reg)"
      using True occ "1.prems" by (intro "1.IH") auto
    with True occ show ?thesis by (subst hp_owner_scan.simps) simp
  next
    case False
    then show ?thesis by (subst hp_owner_scan.simps) simp
  qed
qed

lemma hp_owner_scan_first_free:
  "i \<le> k \<Longrightarrow> k < s_max_hazard_pointers \<Longrightarrow> hp_id (reg k) = None \<Longrightarrow>
   (\<And>j. i \<le> j \<Longrightarrow> j < k \<Longrightarrow> hp_id (reg j) \<noteq> None) \<Longrightarrow>
   hp_owner_scan i t reg = (Some k, reg(k := (reg k)\<lparr>hp_id := Some t\<rparr>))"
proof (induction i t reg rule: hp_owner_scan.induct)
  case (1 i t reg)
  show ?case
  proof (cases "i = k")
    case True
    with "1.prems" show ?thesis by (subst hp_owner_scan.simps) simp
  next
    case False
    with "1.prems" have lt: "i < k" and occ: "hp_id (reg i) \<noteq> None" by auto
    have "hp_owner_scan (i + 1) t reg = (Some k, reg(k := (reg k)\<lparr>hp_id := Some t\<rparr>))"
      using lt occ "1.prems" by (intro "1.IH") auto
    with lt occ "1.prems"(2) show ?thesis by (subst hp_owner_scan.simps) simp
  qed
qed

lemma hp_registered_ctor: "hp_registered 0 (hp_stack_ctor b)"
  by (simp add: hp_registered_def hp_stack_ctor_def)

lemma hp_pop_registers:
  assumes "hp_registered k st" and "k < s_max_hazard_pointers"
  shows "\<exists>st'. hp_pop k st out = Some (Inr (False, out, st')) \<and> hp_registered (Suc k) st'"
proof -
  let ?reg = "s_hazard_pointers st"
  have scan: "hp_owner_scan 0 k ?reg = (Some k, ?reg(k := (?reg k)\<lparr>hp_id := Some k\<rparr>))"
    using assms by (intro hp_owner_scan_first_free) (auto simp: hp_registered_def)
  have hz: "hazard st k = None" and hd: "hp_head st = None"
    using assms(1) by (auto simp: hp_registered_def)
  show ?thesis
    using assms(1) hz hd scan
    by (auto simp: hp_pop_def get_hazard_pointer_for_current_thread_def hp_owner_ctor_def
        hp_pop_loop.simps hp_publish.simps hp_store_def hp_registered_def)
qed

lemma hp_pop_each_registers:
  "hp_registered k st \<Longrightarrow> k \<le> m \<Longrightarrow> m \<le> s_max_hazard_pointers \<Longrightarrow>
   \<exists>st'. hp_pop_each [k..<m] st out = Some (Inr st') \<and> hp_registered m st'"
proof (induction "m - k" arbitrary: k st)
  case 0
  then show ?case by simp
next
  case (Suc d)
  then have lt: "k < m" by simp
  with Suc.prems obtain st1 where p: "hp_pop k st out = Some (Inr (False, out, st1))"
    and r: "hp_registered (Suc k) st1"
    using hp_pop_registers [of k st out] by auto
  have "d = m - Suc k" using Suc.hyps(2) by simp
  from Suc.hyps(1) [OF this r] lt Suc.prems(3)
  obtain st' where "hp_pop_each [Suc k..<m] st1 out = Some (Inr st')"
    and "hp_registered m st'" by auto
  with p lt show ?case by (simp add: upt_conv_Cons)
qed

text \<open>
  C8. The table has 100 slots. When thread \<open>t\<close> has no \<open>hp_owner\<close> yet and every slot of
  the table is held, its call of \<open>pop\<close> ends at once with the exception
  \<open>No hazard pointers available\<close>: no loop is entered and nothing is popped. So it is
  for the 101st thread once 100 threads have each called \<open>pop\<close>.
\<close>

theorem hp_pop_no_free_slot:
  assumes "hazard st t = None"
    and "\<forall>i < s_max_hazard_pointers. hp_id (s_hazard_pointers st i) \<noteq> None"
  shows "hp_pop t st out = Some (Inl (RuntimeError ''No hazard pointers available'')) \<and>
    s_max_hazard_pointers = 100"
proof -
  have "hp_owner_scan 0 t (s_hazard_pointers st) = (None, s_hazard_pointers st)"
    using assms(2) by (intro hp_owner_scan_full) simp
  with assms(1) show ?thesis
    by (simp add: hp_pop_def get_hazard_pointer_for_current_thread_def hp_owner_ctor_def
        s_max_hazard_pointers_def)
qed

theorem hp_pop_no_free_slot_witness:
  "\<exists>st. hp_pop_each [0..<100] (hp_stack_ctor 128) (0::int) = Some (Inr st) \<and>
     hp_pop 100 st 0 = Some (Inl (RuntimeError ''No hazard pointers available''))"
proof -
  obtain st where e: "hp_pop_each [0..<100] (hp_stack_ctor 128) (0::int) = Some (Inr st)"
    and r: "hp_registered 100 st"
    using hp_pop_each_registers [of 0 "hp_stack_ctor 128" 100 "0::int"]
      hp_registered_ctor [of 128]
    by (auto simp: s_max_hazard_pointers_def)
  from r have "hazard st 100 = None"
    and "\<forall>i < s_max_hazard_pointers. hp_id (s_hazard_pointers st i) \<noteq> None"
    by (auto simp: hp_registered_def s_max_hazard_pointers_def)
  then have "hp_pop 100 st 0 = Some (Inl (RuntimeError ''No hazard pointers available''))"
    using hp_pop_no_free_slot [of st 100 0] by blast
  with e show ?thesis by blast
qed



subsection \<open>The stacks are last-in, first-out\<close>

lemma rc_chain_dom: "rc_chain h p as xs \<Longrightarrow> set as \<subseteq> dom h"
  by (induction as arbitrary: p xs) (auto split: option.splits list.splits)

lemma rc_chain_upd: "a \<notin> set as \<Longrightarrow> rc_chain (h(a := v)) p as xs = rc_chain h p as xs"
  by (induction as arbitrary: p xs) (auto split: option.splits list.splits)

lemma rc_inv_empty: "rc_inv s [] \<longleftrightarrow> ptr (rc_head s) = None \<and> (\<forall>a \<in> dom (rc_heap s). a < rc_brk s)"
  apply (auto simp: rc_inv_def)
  subgoal for as by (cases as) (auto split: option.splits)
  subgoal by (rule exI[of _ "[]"]) simp
  done

lemma rc_push_node_inv:
  assumes "rc_inv s xs"
  shows "\<exists>s'. rc_push_node v s = Some s' \<and> rc_inv s' (v # xs) \<and> rc_core.more s' = rc_core.more s"
proof -
  from assms obtain as where ch: "rc_chain (rc_heap s) (ptr (rc_head s)) as xs"
    and d: "distinct as" and b: "\<forall>a \<in> dom (rc_heap s). a < rc_brk s"
    by (auto simp: rc_inv_def)
  let ?a = "rc_brk s"
  let ?n = "\<lparr>rc_data = Some v, internal_count = 0, rc_next = rc_head s\<rparr>"
  let ?s' = "s\<lparr>rc_heap := (rc_heap s)(?a \<mapsto> ?n), rc_brk := Suc ?a, rc_head := \<lparr>external_count = 1, ptr = Some ?a\<rparr>\<rparr>"
  have fresh: "?a \<notin> dom (rc_heap s)" using b by auto
  with rc_chain_dom [OF ch] have nin: "?a \<notin> set as" by auto
  have eq: "rc_push_node v s = Some ?s'"
    by (simp add: rc_push_node_def rc_push_cas.simps)
  have "rc_chain (rc_heap ?s') (ptr (rc_head ?s')) (?a # as) (v # xs)"
    using ch nin by (simp add: rc_chain_upd)
  moreover have "distinct (?a # as)" using d nin by simp
  moreover have "\<forall>a \<in> dom (rc_heap ?s'). a < rc_brk ?s'" using b by (auto simp: less_Suc_eq)
  ultimately have "rc_inv ?s' (v # xs)" unfolding rc_inv_def by blast
  with eq show ?thesis by simp
qed

lemma rc_pop_loop_empty:
  assumes "rc_inv s []"
  shows "\<exists>s'. rc_pop_loop s (rc_head s) = Some (None, s') \<and> rc_inv s' [] \<and> rc_core.more s' = rc_core.more s"
  using assms by (subst rc_pop_loop.simps) (simp add: increase_head_count.simps rc_inv_empty)

lemma rc_pop_loop_cons:
  assumes "rc_inv s (x # xs)"
  shows "\<exists>s'. rc_pop_loop s (rc_head s) = Some (Some (Some x), s') \<and> rc_inv s' xs \<and> rc_core.more s' = rc_core.more s"
proof -
  from assms obtain as where ch: "rc_chain (rc_heap s) (ptr (rc_head s)) as (x # xs)"
    and d: "distinct as" and b: "\<forall>a \<in> dom (rc_heap s). a < rc_brk s"
    by (auto simp: rc_inv_def)
  from ch obtain a as' n where as: "as = a # as'" and p: "ptr (rc_head s) = Some a"
    and n: "rc_heap s a = Some n" and dx: "rc_data n = Some x"
    and ch': "rc_chain (rc_heap s) (ptr (rc_next n)) as' xs"
    by (cases as) (auto split: option.splits)
  let ?oh = "(rc_head s)\<lparr>external_count := external_count (rc_head s) + 1\<rparr>"
  let ?s1 = "s\<lparr>rc_head := ?oh\<rparr>"
  let ?c = "internal_count n + (external_count ?oh - 2)"
  let ?s2 = "?s1\<lparr>rc_head := rc_next n,
              rc_heap := (rc_heap ?s1)(a :=
                 if ?c = 0 then None
                 else Some (n\<lparr>rc_data := None, internal_count := ?c\<rparr>))\<rparr>"
  have inc: "increase_head_count s (rc_head s) = Some (?oh, ?s1)"
    by (simp add: increase_head_count.simps)
  have tr: "rc_try_remove ?s1 ?oh a = Some (Removed (rc_data n), ?s2)"
    using rc_try_remove_live [of ?s1 a n ?oh] n by simp
  have eq: "rc_pop_loop s (rc_head s) = Some (Some (Some x), ?s2)"
    by (subst rc_pop_loop.simps) (simp add: inc p tr dx)
  have nin: "a \<notin> set as'" using d as by simp
  have "rc_chain (rc_heap ?s2) (ptr (rc_head ?s2)) as' xs"
    using ch' nin by (simp add: rc_chain_upd)
  moreover have "distinct as'" using d as by simp
  moreover have "\<forall>a \<in> dom (rc_heap ?s2). a < rc_brk ?s2" using b n by (auto split: if_splits)
  ultimately have "rc_inv ?s2 xs" unfolding rc_inv_def by blast
  with eq show ?thesis by simp
qed

lemma rc_inv_count [simp]: "rc_inv (s\<lparr>rc_count := c\<rparr>) xs = rc_inv s xs"
  by (simp add: rc_inv_def)

lemma refcount_run_lifo:
  "rc_inv s xs \<Longrightarrow> \<exists>s'. refcount_run s out ops = Some (spec_lifo_run xs out ops, s')"
proof (induction ops arbitrary: s xs out)
  case Nil
  then show ?case by simp
next
  case (Cons op ops)
  show ?case
  proof (cases op)
    case (Push v)
    from rc_push_node_inv [of "s\<lparr>rc_count := rc_count s + 1\<rparr>" xs v] Cons.prems
    obtain s1 where "refcount_push s v = Some s1" and "rc_inv s1 (v # xs)"
      by (auto simp: refcount_push_def)
    with Cons.IH [of s1 "v # xs" out] Push show ?thesis by auto
  next
    case Pop
    show ?thesis
    proof (cases xs)
      case Nil
      with rc_pop_loop_empty [of s] Cons.prems
      obtain s1 where "refcount_pop s out = Some (False, out, s1)" and "rc_inv s1 []"
        by (auto simp: refcount_pop_def)
      with Cons.IH [of s1 "[]" out] Pop Nil show ?thesis by auto
    next
      case (Cons x xs')
      with rc_pop_loop_cons [of s x xs'] Cons.prems
      obtain s1 where "refcount_pop s out = Some (True, x, s1)" and "rc_inv s1 xs'"
        by (auto simp: refcount_pop_def)
      with Cons.IH [of s1 xs' x] Pop Cons show ?thesis by auto
    qed
  qed
qed

lemma rc_inv_ctor: "rc_inv refcount_stack_ctor []"
  by (simp add: rc_inv_empty refcount_stack_ctor_def)


lemma hp_chain_dom: "hp_chain h p as xs \<Longrightarrow> set as \<subseteq> dom h"
  by (induction as arbitrary: p xs) (auto split: option.splits list.splits)

lemma hp_chain_upd: "a \<notin> set as \<Longrightarrow> hp_chain (h(a := v)) p as xs = hp_chain h p as xs"
  by (induction as arbitrary: p xs) (auto split: option.splits list.splits)

lemma hp_list_Nil: "hp_list h p [] \<longleftrightarrow> p = None"
proof
  assume "hp_list h p []"
  then obtain as where "hp_chain h p as []" by (auto simp: hp_list_def)
  then show "p = None" by (cases as) (auto split: option.splits)
next
  assume "p = None"
  then have "hp_chain h p [] [] \<and> distinct ([] :: addr list)" by simp
  then show "hp_list h p []" unfolding hp_list_def by blast
qed

lemma hp_list_push:
  assumes "hp_list h p xs" and "a \<notin> dom h"
  shows "hp_list (h(a \<mapsto> \<lparr>hp_data = v, hp_next = p\<rparr>)) (Some a) (v # xs)"
proof -
  from assms(1) obtain as where ch: "hp_chain h p as xs" and d: "distinct as"
    by (auto simp: hp_list_def)
  from hp_chain_dom [OF ch] assms(2) have nin: "a \<notin> set as" by auto
  have "hp_chain (h(a \<mapsto> \<lparr>hp_data = v, hp_next = p\<rparr>)) (Some a) (a # as) (v # xs)"
    using ch nin by (simp add: hp_chain_upd)
  moreover have "distinct (a # as)" using d nin by simp
  ultimately show ?thesis unfolding hp_list_def by blast
qed

lemma hp_list_pop:
  assumes "hp_list h p (x # xs)"
  shows "\<exists>a n. p = Some a \<and> h a = Some n \<and> hp_data n = x \<and>
           hp_list (h(a := None)) (hp_next n) xs"
proof -
  from assms obtain as where ch: "hp_chain h p as (x # xs)" and d: "distinct as"
    by (auto simp: hp_list_def)
  from ch obtain a as' n where as: "as = a # as'" and hd: "p = Some a"
    and n: "h a = Some n" and dx: "hp_data n = x"
    and ch': "hp_chain h (hp_next n) as' xs"
    by (cases as) (auto split: option.splits)
  have nin: "a \<notin> set as'" using d as by simp
  have "hp_chain (h(a := None)) (hp_next n) as' xs"
    using ch' nin by (simp add: hp_chain_upd)
  moreover have "distinct as'" using d as by simp
  ultimately have "hp_list (h(a := None)) (hp_next n) xs" unfolding hp_list_def by blast
  with hd n dx show ?thesis by blast
qed

lemma outstanding_scan_none:
  "(\<And>j. hp_pointer (reg j) \<noteq> Some p) \<Longrightarrow> outstanding_scan i p reg = False"
proof (induction i p reg rule: outstanding_scan.induct)
  case (1 i p reg)
  show ?case
  proof (cases "i < s_max_hazard_pointers")
    case True
    have "outstanding_scan (i + 1) p reg = False"
      using True "1.prems" by (intro "1.IH") auto
    with True "1.prems" [of i] show ?thesis by (subst outstanding_scan.simps) simp
  next
    case False
    then show ?thesis by (subst outstanding_scan.simps) simp
  qed
qed

lemma hp_inv_ctor: "hp_inv t (hp_stack_ctor b) []"
  by (simp add: hp_inv_def hp_stack_ctor_def hp_list_Nil)

lemma hp_push_inv:
  assumes "hp_inv t st xs"
  shows "\<exists>st'. hp_push st v = Some (True, st') \<and> hp_inv t st' (v # xs)"
proof -
  from assms have b: "\<forall>a \<in> dom (hp_heap st). a < hp_brk st" by (simp add: hp_inv_def)
  let ?a = "hp_brk st"
  let ?st' = "st\<lparr>hp_heap := (hp_heap st)(?a \<mapsto> \<lparr>hp_data = v, hp_next = hp_head st\<rparr>),
                 hp_brk := Suc ?a, hp_head := Some ?a\<rparr>"
  have fresh: "?a \<notin> dom (hp_heap st)" using b by auto
  have eq: "hp_push st v = Some (True, ?st')"
    by (simp add: hp_push_def hp_push_cas.simps)
  have l: "hp_list (hp_heap ?st') (hp_head ?st') (v # xs)"
    using hp_list_push [OF _ fresh, of "hp_head st" xs v] assms by (simp add: hp_inv_def)
  have b': "\<forall>a \<in> dom (hp_heap ?st'). a < hp_brk ?st'" using b by (auto simp: less_Suc_eq)
  have "hp_inv t ?st' (v # xs)"
    unfolding hp_inv_def using l b' assms by (simp add: hp_inv_def)
  with eq show ?thesis by simp
qed

lemma hp_get_inv:
  assumes "hp_inv t st xs"
  shows "\<exists>i st0. get_hazard_pointer_for_current_thread t st = Inr (i, st0) \<and> hp_inv t st0 xs \<and>
     hazard st0 t = Some i"
proof (cases "hazard st t")
  case None
  with assms have free: "hp_id (s_hazard_pointers st 0) = None" by (simp add: hp_inv_def)
  let ?reg = "s_hazard_pointers st"
  let ?st0 = "st\<lparr>s_hazard_pointers := ?reg(0 := (?reg 0)\<lparr>hp_id := Some t\<rparr>),
                 hazard := (hazard st)(t \<mapsto> 0)\<rparr>"
  have "hp_owner_scan 0 t ?reg = (Some 0, ?reg(0 := (?reg 0)\<lparr>hp_id := Some t\<rparr>))"
    using free by (subst hp_owner_scan.simps) (simp add: s_max_hazard_pointers_def)
  with None have g: "get_hazard_pointer_for_current_thread t st = Inr (0, ?st0)"
    by (simp add: get_hazard_pointer_for_current_thread_def hp_owner_ctor_def)
  have "hp_inv t ?st0 xs" using assms by (simp add: hp_inv_def)
  with g show ?thesis by simp
next
  case (Some i)
  with assms show ?thesis by (simp add: get_hazard_pointer_for_current_thread_def)
qed

lemma hp_store_twice: "hp_store i p (hp_store i p' st) = hp_store i p st"
  by (simp add: hp_store_def)

lemma hp_store_None_inv:
  assumes "hp_inv t st xs"
  shows "hp_inv t (hp_store i None st) xs"
  using assms by (simp add: hp_inv_def hp_store_def)

lemma hp_pop_empty:
  assumes "hp_inv t st []"
  shows "\<exists>st'. hp_pop t st out = Some (Inr (False, out, st')) \<and> hp_inv t st' []"
proof -
  from hp_get_inv [OF assms] obtain i st0 where
    g: "get_hazard_pointer_for_current_thread t st = Inr (i, st0)" and inv0: "hp_inv t st0 []"
    by blast
  from inv0 have hd: "hp_head st0 = None" by (simp add: hp_inv_def hp_list_Nil)
  have hd': "hp_head (hp_store i None st0) = None" using hd by (simp add: hp_store_def)
  have pub: "hp_publish i st0 None = Some (None, hp_store i None st0)"
    by (subst hp_publish.simps) (simp add: hd')
  have loop: "hp_pop_loop i st0 (hp_head st0) = Some (None, hp_store i None st0)"
    by (subst hp_pop_loop.simps) (simp add: hd pub)
  have "hp_inv t (hp_store i None st0) []" using inv0 by (rule hp_store_None_inv)
  with g loop show ?thesis by (simp add: hp_pop_def hp_store_twice)
qed

lemma hp_pop_cons:
  assumes "hp_inv t st (x # xs)"
  shows "\<exists>st'. hp_pop t st out = Some (Inr (True, x, st')) \<and> hp_inv t st' xs"
proof -
  from hp_get_inv [OF assms] obtain i st0 where
    g: "get_hazard_pointer_for_current_thread t st = Inr (i, st0)" and inv0: "hp_inv t st0 (x # xs)"
    by blast
  from inv0 have l0: "hp_list (hp_heap st0) (hp_head st0) (x # xs)" by (simp add: hp_inv_def)
  from hp_list_pop [OF l0] obtain a n where hd: "hp_head st0 = Some a"
    and n: "hp_heap st0 a = Some n" and dx: "hp_data n = x"
    and l': "hp_list ((hp_heap st0)(a := None)) (hp_next n) xs"
    by blast
  define st1 where "st1 = (hp_store i (Some a) st0)\<lparr>hp_head := hp_next n\<rparr>"
  define st2 where "st2 = hp_store i None st1"
  define st3 where "st3 = st2\<lparr>hp_heap := (hp_heap st2)(a := None)\<rparr>"
  have st2_eq: "st2 = (hp_store i None st0)\<lparr>hp_head := hp_next n\<rparr>"
    by (simp add: st2_def st1_def hp_store_def)
  have hd': "hp_head (hp_store i (Some a) st0) = Some a" using hd by (simp add: hp_store_def)
  have n': "hp_heap (hp_store i (Some a) st0) a = Some n" using n by (simp add: hp_store_def)
  have pub: "hp_publish i st0 (Some a) = Some (Some a, hp_store i (Some a) st0)"
    by (subst hp_publish.simps) (simp add: hd')
  have loop: "hp_pop_loop i st0 (hp_head st0) = Some (Some a, st1)"
    by (subst hp_pop_loop.simps) (simp add: hd pub n' hd' st1_def)
  have inv2: "hp_inv t (hp_store i None st0) (x # xs)" using inv0 by (rule hp_store_None_inv)
  have ptrs: "\<And>j. hp_pointer (s_hazard_pointers st2 j) \<noteq> Some a"
    using inv2 by (simp add: hp_inv_def st2_eq)
  have out0: "\<not> outstanding_hazard_pointers_for a (s_hazard_pointers st2)"
    unfolding outstanding_hazard_pointers_for_def using ptrs by (simp add: outstanding_scan_none)
  have rl: "nodes_to_reclaim st3 = []" using inv2 by (simp add: hp_inv_def st3_def st2_eq)
  have dn: "delete_nodes_with_no_hazards st3 = st3"
    using rl by (simp add: delete_nodes_with_no_hazards_def)
  have n2: "hp_heap st2 a = Some n" using n by (simp add: st2_eq hp_store_def)
  have eq: "hp_pop t st out = Some (Inr (True, x, st3))"
    unfolding hp_pop_def g using loop n2 out0 dn dx
    by (simp add: Let_def st2_def [symmetric] st3_def [symmetric])
  have "hp_inv t st3 xs"
    using inv2 l' unfolding hp_inv_def by (simp add: st3_def st2_eq hp_store_def)
  with eq show ?thesis by blast
qed

lemma hp_run_lifo:
  "hp_inv t st xs \<Longrightarrow> \<exists>st'. hp_run t st out ops = Some (Inr (spec_lifo_run xs out ops, st'))"
proof (induction ops arbitrary: st xs out)
  case Nil
  then show ?case by simp
next
  case (Cons op ops)
  show ?case
  proof (cases op)
    case (Push v)
    from hp_push_inv [OF Cons.prems, of v]
    obtain st1 where "hp_push st v = Some (True, st1)" and "hp_inv t st1 (v # xs)" by blast
    with Cons.IH [of st1 "v # xs" out] Push show ?thesis by auto
  next
    case Pop
    show ?thesis
    proof (cases xs)
      case Nil
      with hp_pop_empty [of t st out] Cons.prems
      obtain st1 where "hp_pop t st out = Some (Inr (False, out, st1))" and "hp_inv t st1 []"
        by auto
      with Cons.IH [of st1 "[]" out] Pop Nil show ?thesis by auto
    next
      case (Cons x xs')
      with hp_pop_cons [of t st x xs' out] Cons.prems
      obtain st1 where "hp_pop t st out = Some (Inr (True, x, st1))" and "hp_inv t st1 xs'"
        by auto
      with Cons.IH [of st1 xs' x] Pop Cons show ?thesis by auto
    qed
  qed
qed

lemma spec_lifo_pushes:
  "spec_lifo_run ys out (map Push xs @ ops) = map (\<lambda>_. Pushed True) xs @ spec_lifo_run (rev xs @ ys) out ops"
  by (induction xs arbitrary: ys) auto

lemma spec_lifo_pops:
  "spec_lifo_run ys out (replicate (length ys) Pop @ ops) = map (Popped True) ys @ spec_lifo_run [] (last (out # ys)) ops"
  by (induction ys arbitrary: out) auto

lemma spec_lifo_reverse:
  "spec_lifo_run [] out (map Push xs @ replicate (length xs) Pop @ [Pop]) =
     map (\<lambda>_. Pushed True) xs @ map (Popped True) (rev xs) @ [Popped False (last (out # rev xs))]"
  using spec_lifo_pops [of "rev xs" out "[Pop]"]
  by (simp add: spec_lifo_pushes)


text \<open>
  C4. Used by one thread at a time, \<open>refcount_stack\<close> and \<open>hp_stack\<close> (with \<open>t\<close> the
  popping thread) are last-in, first-out: pushing the values \<open>xs\<close> onto a new stack
  and then popping returns them in reverse order and then reports the stack empty; any
  sequence of calls gives the results of a list pushed and popped at its head; and
  \<open>push(1), push(2), push(3)\<close> on \<open>refcount_stack\<close> is followed by the pops 3, 2, 1
  and a \<open>pop\<close> that returns \<open>false\<close>.
\<close>

theorem stacks_lifo:
  "(\<exists>s. refcount_run refcount_stack_ctor out (map Push xs @ replicate (length xs) Pop @ [Pop]) =
      Some (map (\<lambda>_. Pushed True) xs @ map (Popped True) (rev xs) @
            [Popped False (last (out # rev xs))], s)) \<and>
   (\<exists>st. hp_run t (hp_stack_ctor b) out (map Push xs @ replicate (length xs) Pop @ [Pop]) =
      Some (Inr (map (\<lambda>_. Pushed True) xs @ map (Popped True) (rev xs) @
                 [Popped False (last (out # rev xs))], st))) \<and>
   (\<exists>s. refcount_run refcount_stack_ctor out ops = Some (spec_lifo_run [] out ops, s)) \<and>
   (\<exists>st. hp_run t (hp_stack_ctor b) out ops = Some (Inr (spec_lifo_run [] out ops, st))) \<and>
   (\<exists>s. refcount_run refcount_stack_ctor (0::int) [Push 1, Push 2, Push 3, Pop, Pop, Pop, Pop] =
      Some ([Pushed True, Pushed True, Pushed True,
             Popped True 3, Popped True 2, Popped True 1, Popped False 1], s))"
proof -
  have hp: "\<exists>st. hp_run t (hp_stack_ctor b) out ops' = Some (Inr (spec_lifo_run [] out ops', st))"
    for ops'
    using hp_run_lifo [OF hp_inv_ctor, of t b out ops'] by blast
  show ?thesis
    using refcount_run_lifo [OF rc_inv_ctor, of out "map Push xs @ replicate (length xs) Pop @ [Pop]"]
      hp [of "map Push xs @ replicate (length xs) Pop @ [Pop]"]
      refcount_run_lifo [OF rc_inv_ctor, of out ops] hp [of ops]
      refcount_run_lifo [OF rc_inv_ctor, of "0::int" "[Push 1, Push 2, Push 3, Pop, Pop, Pop, Pop]"]
    by (simp add: spec_lifo_reverse)
qed



subsection \<open>The queues are first-in, first-out\<close>

lemma lq_path_upd: "a \<notin> set as \<Longrightarrow> lq_path (h(a := v)) p as q = lq_path h p as q"
  by (induction as arbitrary: p) (auto split: option.splits)

lemma lq_path_dom: "lq_path h p as q \<Longrightarrow> set as \<subseteq> dom h"
  by (induction as arbitrary: p) (auto split: option.splits)

lemma lq_path_append:
  "lq_path h p (as @ bs) q \<longleftrightarrow> (\<exists>r. lq_path h p as r \<and> lq_path h r bs q)"
  by (induction as arbitrary: p) (auto split: option.splits)

lemma lq_path_restrict:
  "set as \<inter> S = {} \<Longrightarrow> lq_path (\<lambda>a. if a \<in> S then None else h a) p as q = lq_path h p as q"
  by (induction as arbitrary: p) (auto split: option.splits)

lemma lq_trim_path:
  "lq_heap q = h \<Longrightarrow> lq_path h (lq_first q) cs (Some d) \<Longrightarrow> lq_divider q = Some d \<Longrightarrow>
   distinct (cs @ [d]) \<Longrightarrow>
   lq_trim q = Some (q\<lparr>lq_first := Some d,
                       lq_heap := (\<lambda>a. if a \<in> set cs then None else h a)\<rparr>)"
proof (induction cs arbitrary: q h)
  case Nil
  then have "(\<lambda>a. if a \<in> set [] then None else h a) = lq_heap q" by auto
  then have "q\<lparr>lq_first := Some d, lq_heap := (\<lambda>a. if a \<in> set [] then None else h a)\<rparr> = q"
    using Nil.prems by simp
  moreover have "lq_trim q = Some q" using Nil.prems by (subst lq_trim.simps) simp
  ultimately show ?case by simp
next
  case (Cons c cs)
  from Cons.prems(2) obtain n where c: "lq_first q = Some c" and n: "h c = Some n"
    and p: "lq_path h (lq_next n) cs (Some d)"
    by (auto split: option.splits)
  let ?q1 = "q\<lparr>lq_first := lq_next n, lq_heap := h(c := None)\<rparr>"
  have ne: "lq_first q \<noteq> lq_divider q" using c Cons.prems by auto
  have nin: "c \<notin> set cs" using Cons.prems(4) by simp
  have h1: "lq_heap ?q1 = h(c := None)" by simp
  have p1: "lq_path (h(c := None)) (lq_first ?q1) cs (Some d)"
    using p nin by (simp add: lq_path_upd)
  have d1: "lq_divider ?q1 = Some d" using Cons.prems(3) by simp
  have dist1: "distinct (cs @ [d])" using Cons.prems(4) by simp
  have heq: "(\<lambda>a. if a \<in> set cs then None else (h(c := None)) a)
      = (\<lambda>a. if a \<in> set (c # cs) then None else h a)"
    by (auto intro!: ext)
  have "lq_trim q = lq_trim ?q1"
    using ne c n Cons.prems(1) by (subst lq_trim.simps) simp
  with Cons.IH [OF h1 p1 d1 dist1] show ?case unfolding heq by simp
qed

lemma lq_inv_ctor: "lq_inv (lock_queue_ctor bufsize t0) []"
proof -
  have "lq_shape (lock_queue_ctor bufsize t0) [] 0 []"
    by (simp add: lq_shape_def lock_queue_ctor_def lq_new_Node_def)
  then have "lq_list (lock_queue_ctor bufsize t0) []"
    unfolding lq_list_def by fastforce
  then show ?thesis
    unfolding lq_inv_def by (simp add: lock_queue_ctor_def lq_new_Node_def)
qed

lemma lq_path_last_next:
  "lq_path h p (as @ [l]) None \<Longrightarrow> \<exists>ln. h l = Some ln \<and> lq_next ln = None \<and> lq_path h p as (Some l)"
  by (auto simp: lq_path_append split: option.splits)

lemma lq_pop_empty:
  assumes "lq_inv q []"
  shows "\<exists>q'. lq_pop q out = Some (False, out, q') \<and> lq_inv q' [] \<and> lq_bufsize q' = lq_bufsize q"
proof -
  from assms obtain cs d where sh: "lq_shape q cs d []"
    by (auto simp: lq_inv_def lq_list_def)
  from assms have lk: "\<not> lq_consumer_lock q" by (simp add: lq_inv_def)
  from sh obtain dn where dv: "lq_divider q = Some d" and dn: "lq_heap q d = Some dn"
    and nx: "lq_next dn = None"
    by (auto simp: lq_shape_def split: option.splits)
  let ?q' = "q\<lparr>lq_consumer_lock := False\<rparr>"
  have lock: "lq_lock_consumer q = Some (q\<lparr>lq_consumer_lock := True\<rparr>)"
    using lk by (subst lq_lock_consumer.simps) simp
  have eq: "lq_pop q out = Some (False, out, ?q')"
    by (simp add: lq_pop_def lock dv dn nx)
  have "lq_shape ?q' cs d []" using sh by (simp add: lq_shape_def)
  then have "lq_list ?q' []" unfolding lq_list_def by fastforce
  then have "lq_inv ?q' []" using assms unfolding lq_inv_def by simp
  with eq show ?thesis by simp
qed

lemma lq_pop_cons:
  assumes "lq_inv q (x # xs)"
  shows "\<exists>q'. lq_pop q out = Some (True, x, q') \<and> lq_inv q' xs \<and> lq_bufsize q' = lq_bufsize q"
proof -
  from assms obtain cs d ps where sh: "lq_shape q cs d ps"
    and vs: "map (\<lambda>a. map_option lq_value (lq_heap q a)) ps = map Some (x # xs)"
    by (auto simp: lq_inv_def lq_list_def)
  from vs obtain nxt ps' where ps: "ps = nxt # ps'" by (cases ps) auto
  from assms have lk: "\<not> lq_consumer_lock q" by (simp add: lq_inv_def)
  from sh ps obtain dn nn where dv: "lq_divider q = Some d" and dn: "lq_heap q d = Some dn"
    and nx: "lq_next dn = Some nxt" and nn: "lq_heap q nxt = Some nn"
    and pth: "lq_path (lq_heap q) (Some nxt) (nxt # ps') None"
    by (auto simp: lq_shape_def split: option.splits)
  from vs ps nn have val: "lq_value nn = x"
    and vs': "map (\<lambda>a. map_option lq_value (lq_heap q a)) ps' = map Some xs" by auto
  let ?q' = "q\<lparr>lq_divider := Some nxt, lq_consumer_lock := False, lq_count := lq_count q - 1\<rparr>"
  have lock: "lq_lock_consumer q = Some (q\<lparr>lq_consumer_lock := True\<rparr>)"
    using lk by (subst lq_lock_consumer.simps) simp
  have eq: "lq_pop q out = Some (True, x, ?q')"
    by (simp add: lq_pop_def lock dv dn nx nn val)
  have p1: "lq_path (lq_heap q) (lq_first q) (cs @ [d]) (Some nxt)"
    using sh dn nx by (auto simp: lq_path_append lq_shape_def)
  have "lq_shape ?q' (cs @ [d]) nxt ps'"
    using sh p1 pth ps unfolding lq_shape_def by simp
  with vs' have "lq_list ?q' xs" unfolding lq_list_def by fastforce
  moreover have "lq_count q - 1 = of_nat (length xs)"
    using assms by (simp add: lq_inv_def)
  ultimately have "lq_inv ?q' xs" using assms unfolding lq_inv_def by simp
  with eq show ?thesis by simp
qed

lemma lq_push_full:
  assumes "lq_inv q xs" and "length xs = unat (lq_bufsize q)"
  shows "lq_push q t = Some (False, q)"
proof -
  from assms have "lq_count q = lq_bufsize q" by (simp add: lq_inv_def)
  then show ?thesis by (simp add: lq_push_def)
qed

lemma lq_push_ok:
  assumes "lq_inv q xs" and "length xs \<noteq> unat (lq_bufsize q)"
  shows "\<exists>q'. lq_push q t = Some (True, q') \<and> lq_inv q' (xs @ [t]) \<and> lq_bufsize q' = lq_bufsize q"
proof -
  from assms(1) obtain cs d ps where sh: "lq_shape q cs d ps"
    and vs: "map (\<lambda>a. map_option lq_value (lq_heap q a)) ps = map Some xs"
    by (auto simp: lq_inv_def lq_list_def)
  from assms(1) have b: "\<forall>a \<in> dom (lq_heap q). a < lq_brk q"
    and lk: "\<not> lq_producer_lock q" and lk': "\<not> lq_consumer_lock q"
    and cnt: "lq_count q = of_nat (length xs)" and le: "length xs \<le> unat (lq_bufsize q)"
    by (simp_all add: lq_inv_def)
  from le assms(2) have lt: "length xs < unat (lq_bufsize q)" by simp
  have "unat (lq_count q) = length xs"
    unfolding cnt using le by (rule le_unat_uoi)
  with lt have ne: "lq_count q \<noteq> lq_bufsize q" by auto
  define h where "h = lq_heap q"
  define tmp where "tmp = lq_brk q"
  define l where "l = last (d # ps)"
  define front where "front = butlast (d # ps)"
  have dps: "d # ps = front @ [l]" by (simp add: l_def front_def)
  from sh have sh': "lq_path h (lq_first q) cs (Some d) \<and> lq_divider q = Some d \<and>
      lq_path h (Some d) (d # ps) None \<and> lq_last q = Some (last (d # ps)) \<and>
      distinct (cs @ d # ps)"
    by (simp only: lq_shape_def h_def)
  have pc: "lq_path h (lq_first q) cs (Some d)" and dv: "lq_divider q = Some d"
    using sh' by blast+
  have pp: "lq_path h (Some d) (front @ [l]) None" using sh' unfolding dps by blast
  have la: "lq_last q = Some l" using sh' unfolding l_def by blast
  have dist: "distinct (cs @ front @ [l])" using sh' unfolding dps by blast
  from lq_path_last_next [OF pp] obtain ln where ln: "h l = Some ln" and lnx: "lq_next ln = None"
    and pf: "lq_path h (Some d) front (Some l)" by blast
  have fresh: "tmp \<notin> dom h" using b by (auto simp: tmp_def h_def)
  have tcs: "tmp \<notin> set cs" using lq_path_dom [OF pc] fresh by auto
  have tfr: "tmp \<notin> set front" and tl: "tmp \<noteq> l"
    using lq_path_dom [OF pp] fresh by auto
  have lcs: "l \<notin> set cs" and lfr: "l \<notin> set front" using dist by auto
  define h3 where "h3 = (h(tmp \<mapsto> \<lparr>lq_value = t, lq_next = None\<rparr>))(l \<mapsto> ln\<lparr>lq_next := Some tmp\<rparr>)"
  define h4 where "h4 = (\<lambda>a. if a \<in> set cs then None else h3 a)"
  define q3 where "q3 = q\<lparr>lq_brk := Suc tmp, lq_producer_lock := True, lq_heap := h3, lq_last := Some tmp\<rparr>"
  define q5 where "q5 = q\<lparr>lq_heap := h4, lq_brk := Suc tmp, lq_last := Some tmp, lq_first := Some d,
      lq_producer_lock := False, lq_count := lq_count q + 1\<rparr>"
  have hq3: "lq_heap q3 = h3" by (simp add: q3_def)
  have pc3: "lq_path h3 (lq_first q3) cs (Some d)"
    using pc tcs lcs by (simp add: q3_def h3_def lq_path_upd)
  have dv3: "lq_divider q3 = Some d" using dv by (simp add: q3_def)
  have dcs: "distinct (cs @ [d])" using dist dps by (cases front) auto
  have trim: "lq_trim q3 = Some (q3\<lparr>lq_first := Some d, lq_heap := h4\<rparr>)"
    using lq_trim_path [OF hq3 pc3 dv3 dcs] by (simp only: h4_def)
  have lock: "lq_lock_producer (q\<lparr>lq_heap := h(tmp \<mapsto> \<lparr>lq_value = t, lq_next = None\<rparr>), lq_brk := Suc tmp\<rparr>)
      = Some (q\<lparr>lq_heap := h(tmp \<mapsto> \<lparr>lq_value = t, lq_next = None\<rparr>), lq_brk := Suc tmp,
                lq_producer_lock := True\<rparr>)"
    using lk by (subst lq_lock_producer.simps) simp
  have q5_eq: "q3\<lparr>lq_first := Some d, lq_heap := h4, lq_producer_lock := False,
      lq_count := lq_count q + 1\<rparr> = q5"
    by (rule lock_queue.equality) (simp_all add: q3_def q5_def)
  have "lq_push q t = Some (True, q3\<lparr>lq_first := Some d, lq_heap := h4, lq_producer_lock := False,
      lq_count := lq_count q + 1\<rparr>)"
    using ne la ln tl lock trim
    by (simp add: lq_push_def lq_new_Node_def Let_def h_def [symmetric] tmp_def [symmetric]
        q3_def h3_def)
  then have eq: "lq_push q t = Some (True, q5)" by (simp only: q5_eq)
  have pf4: "lq_path h4 (Some d) front (Some l)"
  proof -
    have "set front \<inter> set cs = {}" using dist by auto
    then have "lq_path h4 (Some d) front (Some l) = lq_path h3 (Some d) front (Some l)"
      unfolding h4_def by (rule lq_path_restrict)
    also have "\<dots> = lq_path h (Some d) front (Some l)"
      using tfr lfr by (simp add: h3_def lq_path_upd)
    finally show ?thesis using pf by simp
  qed
  have h4l: "h4 l = Some (ln\<lparr>lq_next := Some tmp\<rparr>)" using lcs by (simp add: h4_def h3_def)
  have h4t: "h4 tmp = Some \<lparr>lq_value = t, lq_next = None\<rparr>" using tcs tl by (simp add: h4_def h3_def)
  have pp4: "lq_path h4 (Some d) (d # ps @ [tmp]) None"
  proof -
    have "lq_path h4 (Some d) (front @ [l, tmp]) None"
      using pf4 h4l h4t by (auto simp: lq_path_append)
    then show ?thesis using dps by (metis append.assoc append_Cons append_Nil)
  qed
  have dist5: "distinct ([] @ d # ps @ [tmp])"
  proof -
    have "distinct (front @ [l])" using dist by simp
    then have "distinct (d # ps)" by (simp add: dps)
    moreover have "tmp \<notin> set (d # ps)" using tfr tl by (simp add: dps)
    ultimately show ?thesis by simp
  qed
  have sh5: "lq_shape q5 [] d (ps @ [tmp])"
    unfolding lq_shape_def using pp4 dist5 dv by (simp add: q5_def)
  have vals: "map (\<lambda>a. map_option lq_value (lq_heap q5 a)) (ps @ [tmp]) = map Some (xs @ [t])"
  proof -
    have "map_option lq_value (h4 a) = map_option lq_value (h a)" if "a \<in> set ps" for a
    proof -
      from that have "a \<in> set (front @ [l])" by (simp add: dps [symmetric])
      then have "a \<notin> set cs" and "a \<noteq> tmp" using dist tfr tl by auto
      then show ?thesis using ln by (auto simp: h4_def h3_def)
    qed
    then have "map (\<lambda>a. map_option lq_value (h4 a)) ps = map (\<lambda>a. map_option lq_value (h a)) ps"
      by simp
    with vs h4t show ?thesis by (simp add: q5_def h_def)
  qed
  have b5: "\<forall>a \<in> dom (lq_heap q5). a < lq_brk q5"
  proof
    fix a assume "a \<in> dom (lq_heap q5)"
    then have "a \<in> dom h \<or> a = tmp"
      using ln by (auto simp: q5_def h4_def h3_def split: if_splits)
    then show "a < lq_brk q5" using b by (fastforce simp: q5_def tmp_def h_def less_Suc_eq)
  qed
  have "lq_list q5 (xs @ [t])" unfolding lq_list_def using sh5 vals by blast
  then have "lq_inv q5 (xs @ [t])"
    unfolding lq_inv_def using b5 lk' cnt lt
    by (simp add: q5_def)
  with eq show ?thesis by (auto simp: q5_def)
qed

lemma lq_run_fifo:
  "lq_inv q xs \<Longrightarrow>
   \<exists>q'. lq_run q out ops = Some (spec_fifo_run (unat (lq_bufsize q)) xs out ops, q')"
proof (induction ops arbitrary: q xs out)
  case Nil
  then show ?case by simp
next
  case (Cons op ops)
  show ?case
  proof (cases op)
    case (Push v)
    show ?thesis
    proof (cases "length xs = unat (lq_bufsize q)")
      case True
      with lq_push_full [OF Cons.prems, of v] Cons.IH [OF Cons.prems, of out] Push
      show ?thesis by auto
    next
      case False
      from lq_push_ok [OF Cons.prems False, of v]
      obtain q1 where "lq_push q v = Some (True, q1)" and "lq_inv q1 (xs @ [v])"
        and "lq_bufsize q1 = lq_bufsize q" by blast
      with Cons.IH [of q1 "xs @ [v]" out] Push False show ?thesis by auto
    qed
  next
    case Pop
    show ?thesis
    proof (cases xs)
      case Nil
      with lq_pop_empty [of q out] Cons.prems
      obtain q1 where "lq_pop q out = Some (False, out, q1)" and "lq_inv q1 []"
        and "lq_bufsize q1 = lq_bufsize q" by auto
      with Cons.IH [of q1 "[]" out] Pop Nil show ?thesis by auto
    next
      case (Cons x xs')
      with lq_pop_cons [of q x xs' out] Cons.prems
      obtain q1 where "lq_pop q out = Some (True, x, q1)" and "lq_inv q1 xs'"
        and "lq_bufsize q1 = lq_bufsize q" by auto
      with Cons.IH [of q1 xs' x] Pop Cons show ?thesis by auto
    qed
  qed
qed

lemma idx_mod: 
  assumes "m \<le> 64"
  shows "unat ((of_nat e :: 64 word) AND mask m) = e mod 2 ^ m"
proof -
  have "unat ((of_nat e :: 64 word) AND mask m) = unat (take_bit m (of_nat e :: 64 word))"
    by (simp add: take_bit_eq_mask)
  also have "\<dots> = take_bit m (unat (of_nat e :: 64 word))"
    by (simp add: unsigned_take_bit_eq)
  also have "\<dots> = take_bit m (take_bit 64 e)"
    by (simp add: unsigned_of_nat)
  also have "\<dots> = take_bit m e" using assms by (simp add: min_def)
  finally show ?thesis by (simp add: take_bit_eq_mod)
qed

lemma full_diff_neg: 
  assumes "1 \<le> m" and "m < 64"
  shows "sint ((of_nat (d + 1) :: 64 word) - of_nat (d + 2 ^ m)) < 0"
proof -
  have p: "(2::int) ^ m \<le> 2 ^ 63" using assms by (intro power_increasing) auto
  have p2: "(2::int) ^ 1 \<le> 2 ^ m" using assms by (intro power_increasing) auto
  have "(of_nat (d + 1) :: 64 word) - of_nat (d + 2 ^ m) = word_of_int (1 - 2 ^ m)"
    by simp
  also have "sint \<dots> = signed_take_bit 63 (1 - 2 ^ m)"
    by (simp only: signed_of_int) simp
  also have "\<dots> = 1 - 2 ^ m"
  proof -
    have q: "(0::int) \<le> 2 ^ m" by simp
    have lo: "- (2 ^ 63) \<le> 1 - (2::int) ^ m" using p by linarith
    have big: "(1::int) < 2 ^ 63" by simp
    have hi: "1 - (2::int) ^ m < 2 ^ 63" using q big by linarith
    show ?thesis by (rule signed_take_bit_int_eq_self [OF lo hi])
  qed
  finally show ?thesis using p2 by simp
qed

lemma unat_2p:
  assumes "m < 64"
  shows "unat (2 ^ m :: 64 word) = 2 ^ m"
proof -
  have "(2::nat) ^ m < 2 ^ 64" using assms by (intro power_strict_increasing) auto
  moreover have "(2 ^ m :: 64 word) = of_nat (2 ^ m)" by simp
  ultimately show ?thesis by (simp only: unat_of_nat) simp
qed

lemma two_le_2p: "1 \<le> m \<Longrightarrow> m < 64 \<Longrightarrow> (2 :: 64 word) \<le> 2 ^ m"
proof -
  assume a: "1 \<le> m" "m < 64"
  have "(2::nat) ^ 1 \<le> 2 ^ m" using a by (intro power_increasing) auto
  then show ?thesis using a by (simp add: word_le_nat_alt unat_2p)
qed

lemma p2_and: "(2 ^ m :: 64 word) AND (2 ^ m - 1) = 0"
proof -
  have "(2 ^ m :: 64 word) - 1 = mask m" by (simp only: mask_eq_exp_minus_1)
  moreover have "(2 ^ m :: 64 word) AND mask m = 0"
    by (rule bit_eqI) (auto simp: bit_simps)
  ultimately show ?thesis by simp
qed

lemma mod_inj: 
  assumes "(d + k) mod N = (d + j) mod N" and "k < N" and "j < N"
  shows "k = (j::nat)"
proof -
  have aux: "a = b" if "(d + a) mod N = (d + b) mod N" "a \<le> b" "b < N" for a b :: nat
  proof -
    from that have "N dvd (d + b) - (d + a)"
      by (metis add_le_cancel_left mod_eq_dvd_iff_nat)
    then have "N dvd b - a" by simp
    moreover have "b - a < N" using that by simp
    ultimately have "b - a = 0" by (meson dvd_imp_le not_less zero_less_iff_neq_zero)
    with that show ?thesis by simp
  qed
  show ?thesis
  proof (cases "k \<le> j")
    case True
    with aux [of k j] assms show ?thesis by simp
  next
    case False
    with aux [of j k] assms show ?thesis by simp
  qed
qed

lemma mpmc_idx:
  assumes "mpmc_rep m q d xs" and "m < 64"
  shows "unat ((of_nat e :: size_t) AND buffer_mask q) = e mod 2 ^ m"
proof -
  from assms(1) have "buffer_mask q = mask m"
    by (simp only: mpmc_rep_def mask_eq_exp_minus_1)
  with assms(2) show ?thesis by (simp add: idx_mod)
qed

lemma mpmc_push_ok:
  assumes rep: "mpmc_rep m q d xs" and m: "1 \<le> m" "m < 64" and nf: "length xs \<noteq> 2 ^ m"
  shows "\<exists>q'. mpmc_push q v = Some (True, q') \<and> mpmc_rep m q' d (xs @ [v])"
proof -
  define N :: nat where "N = 2 ^ m"
  define n where "n = length xs"
  define e where "e = d + n"
  define idx where "idx = e mod N"
  have Npos: "0 < N" by (simp add: N_def)
  from rep have len: "length (buffer q) = N" and enq: "enqueue_pos q = of_nat e"
    and le: "n \<le> N"
    and full: "\<forall>k < n. buffer q ! ((d + k) mod N) =
        \<lparr>sequence = of_nat (d + k + 1), data = Some (xs ! k)\<rparr>"
    and free: "\<forall>k. n \<le> k \<and> k < N \<longrightarrow> sequence (buffer q ! ((d + k) mod N)) = of_nat (d + k)"
    by (simp_all add: mpmc_rep_def N_def n_def e_def)
  from le nf have lt: "n < N" by (simp add: N_def n_def)
  have ix: "unat ((of_nat e :: size_t) AND buffer_mask q) = idx"
    using mpmc_idx [OF rep m(2)] by (simp add: idx_def N_def)
  have ixlt: "idx < length (buffer q)" using Npos by (simp add: idx_def len)
  have seq: "sequence (buffer q ! idx) = of_nat e"
    using free lt by (simp add: idx_def e_def)
  define q1 where "q1 = q\<lparr>enqueue_pos := of_nat e + 1\<rparr>"
  define q' where "q' = q1\<lparr>buffer := (buffer q1)[idx := \<lparr>sequence = of_nat e + 1, data = Some v\<rparr>]\<rparr>"
  have loop: "mpmc_push_loop q = Some (Some (of_nat e), q1)"
    using ixlt by (subst mpmc_push_loop.simps) (simp add: Let_def enq ix seq q1_def)
  have ix1: "unat ((of_nat e :: size_t) AND buffer_mask q1) = idx"
    using ix by (simp add: q1_def)
  have eq: "mpmc_push q v = Some (True, q')"
    by (simp add: mpmc_push_def loop ix1 q'_def)
  have other: "(d + k) mod N \<noteq> idx" if "k < N" "k \<noteq> n" for k
    using mod_inj [of d k N n] that lt by (auto simp: idx_def e_def)
  have buf': "buffer q' = (buffer q)[idx := \<lparr>sequence = of_nat e + 1, data = Some v\<rparr>]"
    by (simp add: q'_def q1_def)
  have full': "buffer q' ! ((d + k) mod N) =
        \<lparr>sequence = of_nat (d + k + 1), data = Some ((xs @ [v]) ! k)\<rparr>" if "k < n + 1" for k
  proof (cases "k = n")
    case True
    then show ?thesis using ixlt by (simp add: buf' idx_def e_def n_def)
  next
    case False
    with that have kn: "k < n" by simp
    with lt other [of k] have "(d + k) mod N \<noteq> idx" by simp
    then show ?thesis using full kn by (simp add: buf' nth_append n_def)
  qed
  have free': "sequence (buffer q' ! ((d + k) mod N)) = of_nat (d + k)" if "n + 1 \<le> k" "k < N" for k
  proof -
    from that other [of k] have "(d + k) mod N \<noteq> idx" by simp
    then show ?thesis using free that by (simp add: buf')
  qed
  have "mpmc_rep m q' d (xs @ [v])"
    unfolding mpmc_rep_def
    using rep lt full' free'
    by (simp add: N_def [symmetric] n_def [symmetric] buf' len)
       (simp add: q'_def q1_def mpmc_rep_def e_def n_def)
  with eq show ?thesis by blast
qed

lemma mpmc_push_full:
  assumes rep: "mpmc_rep m q d xs" and m: "1 \<le> m" "m < 64" and f: "length xs = 2 ^ m"
  shows "mpmc_push q v = Some (False, q)"
proof -
  define N :: nat where "N = 2 ^ m"
  define e where "e = d + N"
  define s :: size_t where "s = of_nat (d + 1)"
  have Npos: "0 < N" by (simp add: N_def)
  from rep f have len: "length (buffer q) = N" and enq: "enqueue_pos q = of_nat e"
    and full: "\<forall>k < N. buffer q ! ((d + k) mod N) =
        \<lparr>sequence = of_nat (d + k + 1), data = Some (xs ! k)\<rparr>"
    by (simp_all add: mpmc_rep_def N_def e_def)
  have ix: "unat ((of_nat e :: size_t) AND buffer_mask q) = d mod N"
    using mpmc_idx [OF rep m(2), of e] by (simp add: N_def e_def)
  have ixlt: "d mod N < length (buffer q)" using Npos by (simp add: len)
  have seq: "sequence (buffer q ! (d mod N)) = s"
    using full [rule_format, of 0] Npos by (simp add: s_def)
  have neg: "sint (s - of_nat e) < 0"
    unfolding N_def e_def s_def using m by (rule full_diff_neg)
  then have nz: "s - of_nat e \<noteq> 0" by auto
  have loop: "mpmc_push_loop q = Some (None, q)"
    using ixlt neg nz by (subst mpmc_push_loop.simps) (simp add: Let_def enq ix seq)
  then show ?thesis by (simp add: mpmc_push_def)
qed

lemma mpmc_pop_empty:
  assumes rep: "mpmc_rep m q d []" and m: "1 \<le> m" "m < 64"
  shows "mpmc_pop q out = Some (False, out, q)"
proof -
  define N :: nat where "N = 2 ^ m"
  have Npos: "0 < N" by (simp add: N_def)
  from rep have len: "length (buffer q) = N" and deq: "dequeue_pos q = of_nat d"
    and free: "\<forall>k < N. sequence (buffer q ! ((d + k) mod N)) = of_nat (d + k)"
    by (simp_all add: mpmc_rep_def N_def)
  have ix: "unat ((of_nat d :: size_t) AND buffer_mask q) = d mod N"
    using mpmc_idx [OF rep m(2), of d] by (simp add: N_def)
  have ixlt: "d mod N < length (buffer q)" using Npos by (simp add: len)
  have seq: "sequence (buffer q ! (d mod N)) = of_nat d"
    using free Npos by (metis add.right_neutral)
  have loop: "mpmc_pop_loop q = Some (None, q)"
    using ixlt by (subst mpmc_pop_loop.simps) (simp add: Let_def deq ix seq)
  then show ?thesis by (simp add: mpmc_pop_def)
qed

lemma mpmc_pop_cons:
  assumes rep: "mpmc_rep m q d (x # xs)" and m: "1 \<le> m" "m < 64"
  shows "\<exists>q'. mpmc_pop q out = Some (True, x, q') \<and> mpmc_rep m q' (Suc d) xs"
proof -
  define N :: nat where "N = 2 ^ m"
  define n where "n = length xs"
  define idx where "idx = d mod N"
  have Npos: "0 < N" by (simp add: N_def)
  from rep have len: "length (buffer q) = N" and deq: "dequeue_pos q = of_nat d"
    and msk: "buffer_mask q = 2 ^ m - 1"
    and enq: "enqueue_pos q = of_nat (d + Suc n)"
    and le: "Suc n \<le> N"
    and full: "\<forall>k < Suc n. buffer q ! ((d + k) mod N) =
        \<lparr>sequence = of_nat (d + k + 1), data = Some ((x # xs) ! k)\<rparr>"
    and free: "\<forall>k. Suc n \<le> k \<and> k < N \<longrightarrow> sequence (buffer q ! ((d + k) mod N)) = of_nat (d + k)"
    by (simp_all add: mpmc_rep_def N_def n_def)
  have ix: "unat ((of_nat d :: size_t) AND buffer_mask q) = idx"
    using mpmc_idx [OF rep m(2), of d] by (simp add: N_def idx_def)
  have ixlt: "idx < length (buffer q)" using Npos by (simp add: len idx_def)
  have cell: "buffer q ! idx = \<lparr>sequence = of_nat (d + 1), data = Some x\<rparr>"
    using full [rule_format, of 0] by (simp add: idx_def)
  define q1 where "q1 = q\<lparr>dequeue_pos := of_nat d + 1\<rparr>"
  define q' where "q' = q1\<lparr>buffer := (buffer q1)[idx :=
      (buffer q1 ! idx)\<lparr>sequence := of_nat d + buffer_mask q1 + 1\<rparr>]\<rparr>"
  have loop: "mpmc_pop_loop q = Some (Some (of_nat d), q1)"
    using ixlt by (subst mpmc_pop_loop.simps) (simp add: Let_def deq ix cell q1_def)
  have ix1: "unat ((of_nat d :: size_t) AND buffer_mask q1) = idx"
    using ix by (simp add: q1_def)
  have cell1: "buffer q1 ! idx = \<lparr>sequence = of_nat (d + 1), data = Some x\<rparr>"
    using cell by (simp add: q1_def)
  have eq: "mpmc_pop q out = Some (True, x, q')"
    by (simp add: mpmc_pop_def loop ix1 Let_def cell1 q'_def)
  have wrap: "(of_nat d :: size_t) + buffer_mask q + 1 = of_nat (d + N)"
    by (simp add: msk N_def)
  have buf': "buffer q' = (buffer q)[idx := \<lparr>sequence = of_nat (d + N), data = Some x\<rparr>]"
    using cell by (simp add: q'_def q1_def msk N_def)
  have other: "(d + k) mod N \<noteq> idx" if "k < N" "k \<noteq> 0" for k
    using mod_inj [of d k N 0] that Npos by (auto simp: idx_def)
  have full': "buffer q' ! ((Suc d + k) mod N) =
        \<lparr>sequence = of_nat (Suc d + k + 1), data = Some (xs ! k)\<rparr>" if "k < n" for k
  proof -
    from that le have "Suc k < N" by simp
    with other [of "Suc k"] have "(d + Suc k) mod N \<noteq> idx" by simp
    then show ?thesis using full [rule_format, of "Suc k"] that by (simp add: buf')
  qed
  have free': "sequence (buffer q' ! ((Suc d + k) mod N)) = of_nat (Suc d + k)"
    if "n \<le> k" "k < N" for k
  proof (cases "Suc k = N")
    case True
    then have e: "Suc d + k = d + N" by simp
    have im: "(d + N) mod N = idx" by (simp add: idx_def)
    show ?thesis unfolding e using ixlt im by (simp add: buf')
  next
    case False
    with that have sk: "Suc k < N" by simp
    with other [of "Suc k"] have "(d + Suc k) mod N \<noteq> idx" by simp
    then show ?thesis using free [rule_format, of "Suc k"] that sk by (simp add: buf')
  qed
  have "mpmc_rep m q' (Suc d) xs"
    unfolding mpmc_rep_def
    using rep le full' free'
    by (simp add: N_def [symmetric] n_def [symmetric] buf' len)
       (simp add: q'_def q1_def mpmc_rep_def n_def)
  with eq show ?thesis by blast
qed

lemma mpmc_run_fifo:
  "mpmc_inv m q xs \<Longrightarrow>
   \<exists>q'. mpmc_run q out ops = Some (spec_fifo_run (2 ^ m) xs out ops, q')"
proof (induction ops arbitrary: q xs out)
  case Nil
  then show ?case by simp
next
  case (Cons op ops)
  from Cons.prems obtain d where rep: "mpmc_rep m q d xs" and m: "1 \<le> m" "m < 64"
    by (auto simp: mpmc_inv_def)
  show ?case
  proof (cases op)
    case (Push v)
    show ?thesis
    proof (cases "length xs = 2 ^ m")
      case True
      with mpmc_push_full [OF rep m True, of v] Cons.IH [OF Cons.prems, of out] Push
      show ?thesis by auto
    next
      case False
      from mpmc_push_ok [OF rep m False, of v]
      obtain q1 where "mpmc_push q v = Some (True, q1)" and "mpmc_rep m q1 d (xs @ [v])"
        by blast
      moreover from this m have "mpmc_inv m q1 (xs @ [v])" unfolding mpmc_inv_def by blast
      ultimately show ?thesis using Cons.IH [of q1 "xs @ [v]" out] Push False by auto
    qed
  next
    case Pop
    show ?thesis
    proof (cases xs)
      case Nil
      with mpmc_pop_empty [of m q d out] rep m Cons.IH [OF Cons.prems, of out] Pop
      show ?thesis by auto
    next
      case (Cons x xs')
      with mpmc_pop_cons [of m q d x xs' out] rep m
      obtain q1 where "mpmc_pop q out = Some (True, x, q1)" and "mpmc_rep m q1 (Suc d) xs'"
        by auto
      moreover from this m have "mpmc_inv m q1 xs'" unfolding mpmc_inv_def by blast
      ultimately show ?thesis using Cons.IH [of q1 xs' x] Pop Cons by auto
    qed
  qed
qed

lemma unat_inc_less:
  fixes i n :: size_t
  assumes "i < n"
  shows "unat (i + 1) = Suc (unat i)"
  using assms by unat_arith

lemma reinit_fill_spec:
  "length buf = unat n \<Longrightarrow> i \<le> n \<Longrightarrow>
   \<exists>buf'. reinit_fill i n buf = Some buf' \<and> length buf' = length buf \<and>
     (\<forall>k < length buf. buf' ! k =
        (if unat i \<le> k then (buf ! k)\<lparr>sequence := of_nat k\<rparr> else buf ! k))"
proof (induction i n buf rule: reinit_fill.induct)
  case (1 i n buf)
  show ?case
  proof (cases "i = n")
    case True
    with "1.prems" show ?thesis by (subst reinit_fill.simps) simp
  next
    case False
    with "1.prems" have lt: "i < n" by simp
    then have ult: "unat i < length buf" using "1.prems" by (simp add: word_less_nat_alt)
    let ?b1 = "buf[unat i := (buf ! unat i)\<lparr>sequence := i\<rparr>]"
    have le1: "i + 1 \<le> n" using lt by (rule inc_le)
    have u1: "unat (i + 1) = Suc (unat i)" using lt by (rule unat_inc_less)
    have len1: "length ?b1 = unat n" using "1.prems" by simp
    from "1.IH" [OF False _ len1 le1] ult
    obtain buf' where r: "reinit_fill (i + 1) n ?b1 = Some buf'"
      and l: "length buf' = length ?b1"
      and c: "\<forall>k < length ?b1. buf' ! k =
        (if unat (i + 1) \<le> k then (?b1 ! k)\<lparr>sequence := of_nat k\<rparr> else ?b1 ! k)"
      by auto
    have eq: "reinit_fill i n buf = Some buf'"
      using False ult r by (subst reinit_fill.simps) simp
    have "buf' ! k = (if unat i \<le> k then (buf ! k)\<lparr>sequence := of_nat k\<rparr> else buf ! k)"
      if "k < length buf" for k
    proof (cases "k = unat i")
      case True
      with c that ult show ?thesis by (simp add: u1)
    next
      case False
      with c that show ?thesis by (auto simp: u1)
    qed
    with eq l show ?thesis by simp
  qed
qed

lemma mpmc_ctor_pow2:
  assumes m: "1 \<le> m" "m < 64"
  shows "\<exists>q0. mpmc_bounded_queue_ctor (2 ^ m) allocs = (allocs @ [2 ^ m], Some (Inr q0)) \<and>
           mpmc_inv m q0 []"
proof -
  define N :: nat where "N = 2 ^ m"
  define c0 :: "'a cell_t" where "c0 = \<lparr>sequence = 0, data = None\<rparr>"
  have uN: "unat (2 ^ m :: size_t) = N" using m(2) by (simp add: unat_2p N_def)
  have nc: "(new_cells (2 ^ m) :: 'a cell_t list) = replicate N c0"
    by (simp only: new_cells_def uN c0_def)
  have ok: "(2 :: size_t) \<le> 2 ^ m \<and> (2 ^ m :: size_t) AND (2 ^ m - 1) = 0"
    using m by (simp add: two_le_2p p2_and)
  have "length (replicate N c0) = unat (2 ^ m :: size_t)" by (simp add: uN)
  from reinit_fill_spec [OF this, of 0]
  obtain buf' where r: "reinit_fill 0 (2 ^ m) (replicate N c0) = Some buf'"
    and l: "length buf' = N"
    and c: "\<forall>k < N. buf' ! k = c0\<lparr>sequence := of_nat k\<rparr>"
    by auto
  define q0 where "q0 = \<lparr>buffer = buf', buffer_mask = (2 ^ m - 1 :: size_t),
     enqueue_pos = 0, dequeue_pos = 0\<rparr>"
  have eq: "mpmc_bounded_queue_ctor (2 ^ m) allocs = (allocs @ [2 ^ m], Some (Inr q0))"
    using ok by (simp add: mpmc_bounded_queue_ctor_def Let_def mpmc_reinit_def nc r q0_def)
  have "mpmc_rep m q0 0 []"
    unfolding mpmc_rep_def using l c by (simp add: q0_def N_def c0_def)
  with m have "mpmc_inv m q0 []" unfolding mpmc_inv_def by blast
  with eq show ?thesis by blast
qed

lemma spec_fifo_pushes:
  "length ys + length xs \<le> cap \<Longrightarrow>
   spec_fifo_run cap ys out (map Push xs @ ops) =
     map (\<lambda>_. Pushed True) xs @ spec_fifo_run cap (ys @ xs) out ops"
  by (induction xs arbitrary: ys) auto

lemma spec_fifo_pops:
  "spec_fifo_run cap ys out (replicate (length ys) Pop @ ops) =
     map (Popped True) ys @ spec_fifo_run cap [] (last (out # ys)) ops"
  by (induction ys arbitrary: out) auto

lemma spec_fifo_order:
  "length xs \<le> cap \<Longrightarrow>
   spec_fifo_run cap [] out (map Push xs @ replicate (length xs) Pop @ [Pop]) =
     map (\<lambda>_. Pushed True) xs @ map (Popped True) xs @ [Popped False (last (out # xs))]"
  using spec_fifo_pops [of cap xs out "[Pop]"]
  by (simp add: spec_fifo_pushes)

text \<open>
  C5. Used by one thread at a time, \<open>mpmc_bounded_queue\<close> (constructed with a capacity
  \<open>2 ^ m\<close>, \<open>1 \<le> m < 64\<close>) and \<open>lock_queue\<close> are first-in, first-out: any sequence of
  calls on a new queue gives the results of a bounded list pushed at its end and popped
  at its head; pushing values \<open>xs\<close> that fit the capacity and then popping returns them
  in the order pushed and then reports the queue empty; and \<open>push(1), push(2), push(3)\<close>
  on a bounded queue of capacity 4 is followed by the pops 1, 2, 3 and a \<open>pop\<close> that
  returns \<open>false\<close>.
\<close>

theorem queues_fifo:
  "(1 \<le> m \<and> m < 64 \<and> length xs \<le> 2 ^ m \<longrightarrow>
      (\<exists>q0. mpmc_bounded_queue_ctor (2 ^ m) allocs = (allocs @ [2 ^ m], Some (Inr q0)) \<and>
         (\<exists>q'. mpmc_run q0 out ops = Some (spec_fifo_run (2 ^ m) [] out ops, q')) \<and>
         (\<exists>q'. mpmc_run q0 out (map Push xs @ replicate (length xs) Pop @ [Pop]) =
            Some (map (\<lambda>_. Pushed True) xs @ map (Popped True) xs @
                  [Popped False (last (out # xs))], q')))) \<and>
   (\<exists>q'. lq_run (lock_queue_ctor bufsize t0) out ops =
      Some (spec_fifo_run (unat bufsize) [] out ops, q')) \<and>
   (length xs \<le> unat bufsize \<longrightarrow>
      (\<exists>q'. lq_run (lock_queue_ctor bufsize t0) out
           (map Push xs @ replicate (length xs) Pop @ [Pop]) =
         Some (map (\<lambda>_. Pushed True) xs @ map (Popped True) xs @
               [Popped False (last (out # xs))], q'))) \<and>
   (\<exists>q0 q'. mpmc_bounded_queue_ctor 4 allocs = (allocs @ [4], Some (Inr q0)) \<and>
      mpmc_run q0 (0::int) [Push 1, Push 2, Push 3, Pop, Pop, Pop, Pop] =
        Some ([Pushed True, Pushed True, Pushed True,
               Popped True 1, Popped True 2, Popped True 3, Popped False 3], q'))"
proof -
  have a: "\<exists>q0. mpmc_bounded_queue_ctor (2 ^ m) allocs = (allocs @ [2 ^ m], Some (Inr q0)) \<and>
         (\<exists>q'. mpmc_run q0 out ops = Some (spec_fifo_run (2 ^ m) [] out ops, q')) \<and>
         (\<exists>q'. mpmc_run q0 out (map Push xs @ replicate (length xs) Pop @ [Pop]) =
            Some (map (\<lambda>_. Pushed True) xs @ map (Popped True) xs @
                  [Popped False (last (out # xs))], q'))"
    if m: "1 \<le> m" "m < 64" and l: "length xs \<le> 2 ^ m"
  proof -
    from mpmc_ctor_pow2 [OF m, of allocs]
    obtain q0 :: "'a mpmc_bounded_queue" where
      c: "mpmc_bounded_queue_ctor (2 ^ m) allocs = (allocs @ [2 ^ m], Some (Inr q0))"
      and i: "mpmc_inv m q0 []" by blast
    from mpmc_run_fifo [OF i, of out ops]
    have "\<exists>q'. mpmc_run q0 out ops = Some (spec_fifo_run (2 ^ m) [] out ops, q')" .
    moreover from mpmc_run_fifo [OF i, of out "map Push xs @ replicate (length xs) Pop @ [Pop]"]
    have "\<exists>q'. mpmc_run q0 out (map Push xs @ replicate (length xs) Pop @ [Pop]) =
            Some (map (\<lambda>_. Pushed True) xs @ map (Popped True) xs @
                  [Popped False (last (out # xs))], q')"
      by (simp add: spec_fifo_order [OF l])
    ultimately show ?thesis using c by blast
  qed
  have b: "\<exists>q'. lq_run (lock_queue_ctor bufsize t0) out ops' =
      Some (spec_fifo_run (unat bufsize) [] out ops', q')" for ops'
    using lq_run_fifo [OF lq_inv_ctor, of bufsize t0 out ops']
    by (simp add: lock_queue_ctor_def lq_new_Node_def)
  have c: "\<exists>q'. lq_run (lock_queue_ctor bufsize t0) out
           (map Push xs @ replicate (length xs) Pop @ [Pop]) =
         Some (map (\<lambda>_. Pushed True) xs @ map (Popped True) xs @
               [Popped False (last (out # xs))], q')"
    if l: "length xs \<le> unat bufsize"
    using b [of "map Push xs @ replicate (length xs) Pop @ [Pop]"]
    by (simp add: spec_fifo_order [OF l])
  have d: "\<exists>q0 q'. mpmc_bounded_queue_ctor 4 allocs = (allocs @ [4], Some (Inr q0)) \<and>
      mpmc_run q0 (0::int) [Push 1, Push 2, Push 3, Pop, Pop, Pop, Pop] =
        Some ([Pushed True, Pushed True, Pushed True,
               Popped True 1, Popped True 2, Popped True 3, Popped False 3], q')"
    by (simp add: mpmc_ctor_4 mpmc_push_def mpmc_push_loop.simps mpmc_pop_def
        mpmc_pop_loop.simps Let_def)
  from a b [of ops] c d show ?thesis by blast
qed

theorem queues_fifo_witness:
  "(\<exists>q0. mpmc_bounded_queue_ctor 4 [] = ([4], Some (Inr q0)) \<and>
      (\<exists>q'. mpmc_run q0 (0::int) [Push 1, Push 2, Push 3, Pop, Pop, Pop, Pop] =
         Some ([Pushed True, Pushed True, Pushed True,
                Popped True 1, Popped True 2, Popped True 3, Popped False 3], q'))) \<and>
   (\<exists>q'. lq_run (lock_queue_ctor 4 (0::int)) 0 [Push 1, Push 2, Push 3, Pop, Pop, Pop, Pop] =
      Some ([Pushed True, Pushed True, Pushed True,
             Popped True 1, Popped True 2, Popped True 3, Popped False 3], q'))"
  using queues_fifo [of 2 "[1, 2, 3 :: int]" "[]" 0 "[]" 4 0]
  by (simp add: numeral_3_eq_3)

end
